theory Spec2Isabelle
  imports Main
begin

section \<open>Events, plugins and the engine state\<close>

text \<open>
  The engine of \<^verbatim>\<open>src/core/queue/event-queue.ts\<close> works on mutable objects that it
  shares with its callers and its plugins: the very \<^verbatim>\<open>Context\<close> that was dispatched is
  what sits in the queue, what is logged on, and what comes back from \<^verbatim>\<open>flush\<close>. Objects
  are therefore kept in a store, and the queue holds references.
\<close>

type_synonym ref = nat

text \<open>
  A metric reported on an event's stats channel. The value of a gauge is an elapsed
  wall-clock time (\<^verbatim>\<open>new Date().getTime() - start\<close>); only the fact that it was reported
  is recorded.
\<close>

datatype metric = Increment string | Gauge string

text \<open>
  Modelled from the spec: the class \<^verbatim>\<open>Context\<close> (imported from \<^verbatim>\<open>../context\<close>) is not part
  of the source at hand. The spec gives its surface: a payload, a log channel, a stats
  channel, and \<^verbatim>\<open>seal()\<close>, after which the event is immutable.
\<close>

record Context =
  payload :: string
  sealed :: bool
  logs :: "(string \<times> string) list"
  stats :: "metric list"

datatype error = Error string

text \<open>
  Modelled from the spec: the interface \<^verbatim>\<open>Extension\<close> (imported from \<^verbatim>\<open>../extension\<close>) is
  not part of the source at hand. A plugin has a name, a stage tag \<^verbatim>\<open>type\<close>, a readiness
  predicate \<^verbatim>\<open>isLoaded()\<close>, a \<^verbatim>\<open>load\<close> operation that completes or fails, and a processing
  operation that yields an event or fails. What processing does to the event it is
  handed is one of: it throws; it returns the event as it is; it changes the payload of
  the event in place and returns it; it returns a new event object.

  \<open>load\<close> is the outcome of the plugin's load operation: \<open>Inl e\<close> when it fails with
  \<open>e\<close>, \<open>Inr b\<close> when it completes and leaves \<^verbatim>\<open>isLoaded()\<close> answering \<open>b\<close>.
\<close>

datatype outcome = Throw error | Pass | Mutate string | Replace Context

record extension =
  name :: string
  type :: string
  isLoaded :: bool
  load :: "error + bool"
  process :: "Context \<Rightarrow> outcome"

text \<open>
  What a test double would record: each call of a plugin's processing operation, with
  the event object it was handed and the content of that object at the time of the
  call, and each sealing of an event.
\<close>

datatype obs = Called string ref Context | Sealed ref

text \<open>
  The fields of \<^verbatim>\<open>EventQueue\<close> (\<^verbatim>\<open>config.extensions\<close> appears as \<open>extensions\<close>), together
  with the number of armed \<^verbatim>\<open>setTimeout\<close> callbacks, the object store, the next unused
  reference, and the record of observations.
\<close>

record state =
  queue :: "ref list"
  archive :: "ref list"
  flushing :: bool
  extensions :: "extension list"
  timers :: nat
  heap :: "ref \<Rightarrow> Context"
  next_ref :: ref
  trace :: "obs list"

subsection \<open>The event's capability surface\<close>

text \<open>Modelled from the spec: \<^verbatim>\<open>ctx.log(level, message)\<close> of the missing class \<^verbatim>\<open>Context\<close>.\<close>

definition ctx_log :: "ref \<Rightarrow> string \<Rightarrow> string \<Rightarrow> state \<Rightarrow> state" where
  "ctx_log r level msg s =
     s\<lparr>heap := (heap s)(r := (heap s r)\<lparr>logs := logs (heap s r) @ [(level, msg)]\<rparr>)\<rparr>"

text \<open>Modelled from the spec: \<^verbatim>\<open>ctx.stats.increment(name)\<close> of the missing class \<^verbatim>\<open>Context\<close>.\<close>

definition stats_increment :: "ref \<Rightarrow> string \<Rightarrow> state \<Rightarrow> state" where
  "stats_increment r nm s =
     s\<lparr>heap := (heap s)(r := (heap s r)\<lparr>stats := stats (heap s r) @ [Increment nm]\<rparr>)\<rparr>"

text \<open>Modelled from the spec: \<^verbatim>\<open>ctx.stats.gauge(name, value)\<close> of the missing class \<^verbatim>\<open>Context\<close>.\<close>

definition stats_gauge :: "ref \<Rightarrow> string \<Rightarrow> state \<Rightarrow> state" where
  "stats_gauge r nm s =
     s\<lparr>heap := (heap s)(r := (heap s r)\<lparr>stats := stats (heap s r) @ [Gauge nm]\<rparr>)\<rparr>"

text \<open>
  Modelled from the spec: \<^verbatim>\<open>ctx.seal()\<close> of the missing class \<^verbatim>\<open>Context\<close>; it makes the
  event immutable. The sealing is recorded among the observations.
\<close>

definition seal :: "ref \<Rightarrow> state \<Rightarrow> state" where
  "seal r s =
     s\<lparr>heap := (heap s)(r := (heap s r)\<lparr>sealed := True\<rparr>), trace := trace s @ [Sealed r]\<rparr>"

text \<open>
  Modelled from the spec: the constructor of the missing class \<^verbatim>\<open>Context\<close>. A producer
  creates an event object; the engine does not know it until dispatch.
\<close>

definition new_context :: "Context \<Rightarrow> state \<Rightarrow> ref \<times> state" where
  "new_context c s = (next_ref s, s\<lparr>heap := (heap s)(next_ref s := c), next_ref := Suc (next_ref s)\<rparr>)"

subsection \<open>Running one plugin\<close>

text \<open>
  Modelled from the spec: \<^verbatim>\<open>attempt\<close> (imported from \<^verbatim>\<open>./delivery\<close>) is not part of the source
  at hand. \<^verbatim>\<open>flushOne\<close> binds its result to a \<^verbatim>\<open>Context | Error\<close> and keeps it only if it is a
  \<^verbatim>\<open>Context\<close>, and the spec says that a failure is caught per plugin and only a successful
  transformation is applied: so \<^verbatim>\<open>attempt\<close> runs the plugin's processing operation and
  resolves with the resulting event, or with the error as a value when the plugin
  fails. By the spec a sealed event is immutable: changing its payload fails and does not
  alter it. The call is recorded among the observations.
\<close>

definition attempt :: "ref \<Rightarrow> extension \<Rightarrow> state \<Rightarrow> (error + ref) \<times> state" where
  "attempt r p s =
     (let c = heap s r; s1 = s\<lparr>trace := trace s @ [Called (name p) r c]\<rparr> in
      case process p c of
        Throw e \<Rightarrow> (Inl e, s1)
      | Pass \<Rightarrow> (Inr r, s1)
      | Mutate v \<Rightarrow>
          if sealed c then (Inl (Error ''sealed''), s1)
          else (Inr r, s1\<lparr>heap := (heap s1)(r := c\<lparr>payload := v\<rparr>)\<rparr>)
      | Replace c' \<Rightarrow>
          (Inr (next_ref s1),
           s1\<lparr>heap := (heap s1)(next_ref s1 := c'), next_ref := Suc (next_ref s1)\<rparr>))"

text \<open>
  Modelled from the spec: \<^verbatim>\<open>ensure\<close> (imported from \<^verbatim>\<open>./delivery\<close>) is not part of the source
  at hand. \<^verbatim>\<open>flushOne\<close> binds its result to a \<^verbatim>\<open>Context | undefined\<close>, and the spec says that a
  failure of a pre plugin propagates as an error from \<^verbatim>\<open>flushOne\<close>: so \<^verbatim>\<open>ensure\<close> runs the
  plugin and rejects (\<open>Inl\<close>) when it fails.
\<close>

definition ensure :: "ref \<Rightarrow> extension \<Rightarrow> state \<Rightarrow> (error + ref option) \<times> state" where
  "ensure r p s =
     (case attempt r p s of
        (Inl e, s') \<Rightarrow> (Inl e, s')
      | (Inr t, s') \<Rightarrow> (Inr (Some t), s'))"

text \<open>
  Whether the processing operation of a plugin fails on an event with content \<open>c\<close>: it
  throws, or it tries to change the payload of a sealed event.
\<close>

definition fails :: "extension \<Rightarrow> Context \<Rightarrow> bool" where
  "fails p c = (case process p c of Throw e \<Rightarrow> True | Mutate v \<Rightarrow> sealed c | _ \<Rightarrow> False)"

section \<open>The engine\<close>

subsection \<open>Construction and registration\<close>

fun first_failure :: "extension list \<Rightarrow> error option" where
  "first_failure [] = None"
| "first_failure (x # xs) = (case load x of Inl e \<Rightarrow> Some e | Inr b \<Rightarrow> first_failure xs)"

definition after_load :: "extension \<Rightarrow> extension" where
  "after_load x = (case load x of Inl e \<Rightarrow> x | Inr b \<Rightarrow> x\<lparr>isLoaded := b\<rparr>)"

text \<open>
  The constructor sets both buffers to the empty list and keeps the configuration. No
  timer is armed, no event object exists yet, and nothing has been observed.
\<close>

definition constructor :: "extension list \<Rightarrow> state" where
  "constructor config =
     \<lparr>queue = [], archive = [], flushing = False, extensions = config, timers = 0,
      heap = (\<lambda>r. \<lparr>payload = [], sealed = False, logs = [], stats = []\<rparr>),
      next_ref = 0, trace = []\<rparr>"

text \<open>
  \<^verbatim>\<open>EventQueue.init\<close>: every configured plugin is loaded, and \<^verbatim>\<open>Promise.all\<close> rejects if
  one of the loads does; otherwise the engine is returned, ready or not.
\<close>

definition init :: "extension list \<Rightarrow> error + state" where
  "init config =
     (let eventQueue = constructor config in
      case first_failure (extensions eventQueue) of
        Some e \<Rightarrow> Inl e
      | None \<Rightarrow> Inr (eventQueue\<lparr>extensions := map after_load (extensions eventQueue)\<rparr>))"

text \<open>
  \<^verbatim>\<open>register\<close>: the plugin is pushed first and loaded afterwards, so it stays registered
  when its load fails; the first component is the error of the rejection, if any.
\<close>

definition register :: "extension \<Rightarrow> state \<Rightarrow> error option \<times> state" where
  "register x s =
     (case load x of
        Inl e \<Rightarrow> (Some e, s\<lparr>extensions := extensions s @ [x]\<rparr>)
      | Inr b \<Rightarrow> (None, s\<lparr>extensions := extensions s @ [x\<lparr>isLoaded := b\<rparr>]\<rparr>))"

subsection \<open>Enqueue and scheduling\<close>

definition scheduleFlush :: "state \<Rightarrow> state" where
  "scheduleFlush s = (if flushing s then s else s\<lparr>timers := Suc (timers s)\<rparr>)"

definition dispatch :: "ref \<Rightarrow> state \<Rightarrow> ref \<times> state" where
  "dispatch ctx s =
     (let s1 = ctx_log ctx ''debug'' ''Dispatching'' s;
          s2 = stats_increment ctx ''message_dispatched'' s1;
          s3 = s2\<lparr>queue := queue s2 @ [ctx]\<rparr>
      in (ctx, scheduleFlush s3))"

subsection \<open>The staged pipeline\<close>

definition isReady :: "state \<Rightarrow> bool" where
  "isReady s = list_all isLoaded (extensions s)"

text \<open>The loop over the \<^verbatim>\<open>before\<close> plugins: \<^verbatim>\<open>ensure\<close> may reject, which leaves the loop.\<close>

fun run_before :: "extension list \<Rightarrow> ref \<Rightarrow> state \<Rightarrow> (error + ref) \<times> state" where
  "run_before [] ctx s = (Inr ctx, s)"
| "run_before (beforeWare # rest) ctx s =
     (case ensure ctx beforeWare s of
        (Inl e, s') \<Rightarrow> (Inl e, s')
      | (Inr None, s') \<Rightarrow> run_before rest ctx s'
      | (Inr (Some temp), s') \<Rightarrow> run_before rest temp s')"

text \<open>The loop over the \<^verbatim>\<open>enrichment\<close> plugins: only a \<^verbatim>\<open>Context\<close> result replaces \<^verbatim>\<open>ctx\<close>.\<close>

fun run_enrichment :: "extension list \<Rightarrow> ref \<Rightarrow> state \<Rightarrow> ref \<times> state" where
  "run_enrichment [] ctx s = (ctx, s)"
| "run_enrichment (enrichmentWare # rest) ctx s =
     (case attempt ctx enrichmentWare s of
        (Inr temp, s') \<Rightarrow> run_enrichment rest temp s'
      | (Inl e, s') \<Rightarrow> run_enrichment rest ctx s')"

text \<open>
  \<^verbatim>\<open>destinations.map((destination) => attempt(ctx, destination))\<close> followed by
  \<^verbatim>\<open>Promise.all\<close>: every attempt is started, in the order of the list, on the same \<^verbatim>\<open>ctx\<close>;
  the values they resolve with are collected and then dropped by \<^verbatim>\<open>flushOne\<close>.
\<close>

fun deliveryAttempts :: "extension list \<Rightarrow> ref \<Rightarrow> state \<Rightarrow> (error + ref) list \<times> state" where
  "deliveryAttempts [] ctx s = ([], s)"
| "deliveryAttempts (destination # rest) ctx s =
     (case attempt ctx destination s of
        (res, s') \<Rightarrow> (case deliveryAttempts rest ctx s' of (ress, s'') \<Rightarrow> (res # ress, s'')))"

text \<open>
  \<^verbatim>\<open>flushOne\<close>: \<open>Inl e\<close> is a rejection, \<open>Inr None\<close> the \<^verbatim>\<open>undefined\<close> of the readiness gate,
  \<open>Inr (Some ctx)\<close> the event returned at the end.
\<close>

definition flushOne :: "ref \<Rightarrow> state \<Rightarrow> (error + ref option) \<times> state" where
  "flushOne ctx s =
     (if \<not> isReady s then (Inr None, s)
      else
        let befores = filter (\<lambda>p. type p = ''before'') (extensions s);
            enrichment = filter (\<lambda>p. type p = ''enrichment'') (extensions s);
            destinations = filter (\<lambda>p. type p = ''destination'') (extensions s)
        in case run_before befores ctx s of
             (Inl e, s1) \<Rightarrow> (Inl e, s1)
           | (Inr ctx1, s1) \<Rightarrow>
               (case run_enrichment enrichment ctx1 s1 of
                  (ctx2, s2) \<Rightarrow>
                    (case deliveryAttempts destinations ctx2 (seal ctx2 s2) of
                       (ress, s4) \<Rightarrow>
                         (Inr (Some ctx2), stats_increment ctx2 ''message_delivered'' s4))))"

subsection \<open>The flush loop\<close>

text \<open>
  One run of the body handed to \<^verbatim>\<open>pWhile\<close>, with the local list \<^verbatim>\<open>flushed\<close> as first
  component.
\<close>

definition flush_body :: "ref list \<times> state \<Rightarrow> ref list \<times> state" where
  "flush_body fs =
     (case fs of (flushed, s) \<Rightarrow>
        (case queue s of
           [] \<Rightarrow> (flushed, s)
         | ctx # rest \<Rightarrow>
             (case flushOne ctx (s\<lparr>queue := rest\<rparr>) of
                (Inr res, s1) \<Rightarrow>
                  (flushed @ [ctx],
                   ctx_log ctx ''debug'' ''Delivered'' (stats_gauge ctx ''delivered'' s1))
              | (Inl err, s1) \<Rightarrow>
                  (let s2 = ctx_log ctx ''error'' ''Failed to deliver'' s1;
                       s3 = stats_increment ctx ''delivery_failed'' s2
                   in (flushed, s3\<lparr>queue := queue s3 @ [ctx]\<rparr>)))))"

text \<open>
  \<^verbatim>\<open>pWhile(() => this.queue.length > 0, body)\<close>: the loop may run forever, and then the
  value is \<open>None\<close>.
\<close>

partial_function (option) flush_loop :: "ref list \<times> state \<Rightarrow> (ref list \<times> state) option" where
  "flush_loop fs = (if queue (snd fs) \<noteq> [] then flush_loop (flush_body fs) else Some fs)"

declare flush_loop.simps [code]

definition flush :: "state \<Rightarrow> (ref list \<times> state) option" where
  "flush s = flush_loop ([], s)"

text \<open>
  The callback armed by \<^verbatim>\<open>scheduleFlush\<close>, run when one of the armed timers fires (so
  \<open>timers s\<close> is not \<open>0\<close> then); it does not finish when \<^verbatim>\<open>flush\<close> does not.
\<close>

definition timer_callback :: "state \<Rightarrow> state option" where
  "timer_callback s =
     (case flush (s\<lparr>timers := timers s - 1, flushing := True\<rparr>) of
        None \<Rightarrow> None
      | Some (flushed, s') \<Rightarrow> Some (scheduleFlush (s'\<lparr>flushing := False\<rparr>)))"

section \<open>Runs of the engine\<close>

text \<open>A producer dispatching several events in a row, with the values the calls resolve with.\<close>

fun dispatch_all :: "ref list \<Rightarrow> state \<Rightarrow> ref list \<times> state" where
  "dispatch_all [] s = ([], s)"
| "dispatch_all (ctx # rest) s =
     (case dispatch ctx s of
        (res, s') \<Rightarrow> (case dispatch_all rest s' of (ress, s'') \<Rightarrow> (res # ress, s'')))"

text \<open>
  What a caller of \<^verbatim>\<open>flush\<close> sees when the call returns: the returned list, the pending
  buffer, and the observations made so far.
\<close>

definition observe :: "(ref list \<times> state) option \<Rightarrow> (ref list \<times> ref list \<times> obs list) option" where
  "observe res = map_option (\<lambda>(flushed, s). (flushed, queue s, trace s)) res"

text \<open>
  What the next run of the loop body does first: the event it takes from the head of the
  pending buffer, and how \<^verbatim>\<open>flushOne\<close> ends on it (\<open>Inl\<close> when it fails); \<open>None\<close> when
  nothing is pending.
\<close>

definition next_try :: "ref list \<times> state \<Rightarrow> (ref \<times> (error + ref option)) option" where
  "next_try fs =
     (case queue (snd fs) of
        [] \<Rightarrow> None
      | ctx # rest \<Rightarrow> Some (ctx, fst (flushOne ctx ((snd fs)\<lparr>queue := rest\<rparr>))))"

text \<open>
  The operations of an engine's lifetime: a producer creates an event, and the methods of
  the class are called. A run is \<open>None\<close> when one of its flushes does not return.
\<close>

datatype operation =
  NewContext Context | Dispatch ref | Register extension | Flush | FlushOne ref | TimerFires

fun apply_operation :: "operation \<Rightarrow> state \<Rightarrow> state option" where
  "apply_operation (NewContext c) s = Some (snd (new_context c s))"
| "apply_operation (Dispatch ctx) s = Some (snd (dispatch ctx s))"
| "apply_operation (Register x) s = Some (snd (register x s))"
| "apply_operation Flush s = map_option snd (flush s)"
| "apply_operation (FlushOne ctx) s = Some (snd (flushOne ctx s))"
| "apply_operation TimerFires s = (if timers s = 0 then Some s else timer_callback s)"

fun run :: "operation list \<Rightarrow> state \<Rightarrow> state option" where
  "run [] s = Some s"
| "run (x # xs) s = (case apply_operation x s of None \<Rightarrow> None | Some s' \<Rightarrow> run xs s')"

subsection \<open>Test fixtures\<close>

definition plugin :: "string \<Rightarrow> string \<Rightarrow> (Context \<Rightarrow> outcome) \<Rightarrow> extension" where
  "plugin n t f = \<lparr>name = n, type = t, isLoaded = True, load = Inr True, process = f\<rparr>"

definition track :: Context where
  "track = \<lparr>payload = ''track'', sealed = False, logs = [], stats = []\<rparr>"

text \<open>An engine with the given plugins and one event object, \<open>0\<close>, not yet dispatched.\<close>

definition engine :: "extension list \<Rightarrow> state" where
  "engine config = snd (new_context track (constructor config))"

definition before_bad :: extension where
  "before_bad = plugin ''gate'' ''before'' (\<lambda>c. Throw (Error ''rejected''))"

definition before_flaky :: extension where
  "before_flaky =
     plugin ''flaky'' ''before''
       (\<lambda>c. if Increment ''delivery_failed'' \<in> set (stats c) then Pass
            else Throw (Error ''not yet''))"

definition destination_ok :: extension where
  "destination_ok = plugin ''good'' ''destination'' (\<lambda>c. Pass)"

definition enrichment_bad :: extension where
  "enrichment_bad = plugin ''enrich'' ''enrichment'' (\<lambda>c. Throw (Error ''no data''))"





text \<open>A plugin that rejects an event for its payload.\<close>

definition before_picky :: extension where
  "before_picky =
     plugin ''picky'' ''before''
       (\<lambda>c. if payload c = ''poison'' then Throw (Error ''poison'') else Pass)"

definition poison :: Context where
  "poison = \<lparr>payload = ''poison'', sealed = False, logs = [], stats = []\<rparr>"

text \<open>The same engine after that event has been dispatched.\<close>

definition dispatched :: "extension list \<Rightarrow> state" where
  "dispatched config = snd (dispatch 0 (engine config))"

text \<open>
  The same engine after a second event, \<open>1\<close>, has been created and dispatched: one like
  the first, or one with the payload that \<open>before_picky\<close> rejects.
\<close>

definition dispatched_two :: "extension list \<Rightarrow> state" where
  "dispatched_two config = snd (dispatch 1 (snd (new_context track (dispatched config))))"

definition dispatched_poison :: "extension list \<Rightarrow> state" where
  "dispatched_poison config = snd (dispatch 1 (snd (new_context poison (dispatched config))))"

subsection \<open>What the pipeline leaves alone\<close>

text \<open>
  The pipeline never touches the engine's own fields, and it only ever adds objects to
  the store.
\<close>

definition frame :: "state \<Rightarrow> state \<Rightarrow> bool" where
  "frame s s' \<longleftrightarrow>
     queue s' = queue s \<and> archive s' = archive s \<and> flushing s' = flushing s \<and>
     extensions s' = extensions s \<and> timers s' = timers s \<and> next_ref s \<le> next_ref s'"

section \<open>Basic facts\<close>

subsection \<open>Fields and the event's capabilities\<close>

lemma ctx_log_fields [simp]:
  "queue (ctx_log r l m s) = queue s" "archive (ctx_log r l m s) = archive s"
  "flushing (ctx_log r l m s) = flushing s" "extensions (ctx_log r l m s) = extensions s"
  "timers (ctx_log r l m s) = timers s" "next_ref (ctx_log r l m s) = next_ref s"
  "trace (ctx_log r l m s) = trace s"
  by (simp_all add: ctx_log_def)

lemma stats_increment_fields [simp]:
  "queue (stats_increment r n s) = queue s" "archive (stats_increment r n s) = archive s"
  "flushing (stats_increment r n s) = flushing s" "extensions (stats_increment r n s) = extensions s"
  "timers (stats_increment r n s) = timers s" "next_ref (stats_increment r n s) = next_ref s"
  "trace (stats_increment r n s) = trace s"
  by (simp_all add: stats_increment_def)

lemma stats_gauge_fields [simp]:
  "queue (stats_gauge r n s) = queue s" "archive (stats_gauge r n s) = archive s"
  "flushing (stats_gauge r n s) = flushing s" "extensions (stats_gauge r n s) = extensions s"
  "timers (stats_gauge r n s) = timers s" "next_ref (stats_gauge r n s) = next_ref s"
  "trace (stats_gauge r n s) = trace s"
  by (simp_all add: stats_gauge_def)

lemma seal_fields [simp]:
  "queue (seal r s) = queue s" "archive (seal r s) = archive s"
  "flushing (seal r s) = flushing s" "extensions (seal r s) = extensions s"
  "timers (seal r s) = timers s" "next_ref (seal r s) = next_ref s"
  "trace (seal r s) = trace s @ [Sealed r]"
  by (simp_all add: seal_def)

lemma heap_ctx_log [simp]:
  "heap (ctx_log r l m s) r' =
     (if r' = r then (heap s r)\<lparr>logs := logs (heap s r) @ [(l, m)]\<rparr> else heap s r')"
  by (simp add: ctx_log_def)

lemma heap_stats_increment [simp]:
  "heap (stats_increment r n s) r' =
     (if r' = r then (heap s r)\<lparr>stats := stats (heap s r) @ [Increment n]\<rparr> else heap s r')"
  by (simp add: stats_increment_def)

lemma heap_stats_gauge [simp]:
  "heap (stats_gauge r n s) r' =
     (if r' = r then (heap s r)\<lparr>stats := stats (heap s r) @ [Gauge n]\<rparr> else heap s r')"
  by (simp add: stats_gauge_def)

lemma heap_seal [simp]:
  "heap (seal r s) r' = (if r' = r then (heap s r)\<lparr>sealed := True\<rparr> else heap s r')"
  by (simp add: seal_def)

lemma scheduleFlush_fields [simp]:
  "queue (scheduleFlush s) = queue s" "archive (scheduleFlush s) = archive s"
  "flushing (scheduleFlush s) = flushing s" "extensions (scheduleFlush s) = extensions s"
  "heap (scheduleFlush s) = heap s" "next_ref (scheduleFlush s) = next_ref s"
  "trace (scheduleFlush s) = trace s"
  by (simp_all add: scheduleFlush_def)

lemma dispatch_fields [simp]:
  "fst (dispatch ctx s) = ctx"
  "queue (snd (dispatch ctx s)) = queue s @ [ctx]"
  "archive (snd (dispatch ctx s)) = archive s"
  "flushing (snd (dispatch ctx s)) = flushing s"
  "extensions (snd (dispatch ctx s)) = extensions s"
  "next_ref (snd (dispatch ctx s)) = next_ref s"
  "trace (snd (dispatch ctx s)) = trace s"
  by (simp_all add: dispatch_def Let_def)

subsection \<open>One plugin\<close>

lemma frame_refl [simp]: "frame s s"
  by (simp add: frame_def)

lemma frame_trans: "frame s s' \<Longrightarrow> frame s' s'' \<Longrightarrow> frame s s''"
  by (simp add: frame_def)

lemma frame_ops [simp]:
  "frame s (ctx_log r l m s)" "frame s (stats_increment r n s)" "frame s (stats_gauge r n s)"
  "frame s (seal r s)"
  by (simp_all add: frame_def)

lemma attempt_frame: "attempt r p s = (res, s') \<Longrightarrow> frame s s'"
  by (auto simp add: attempt_def frame_def Let_def split: outcome.splits if_splits)

lemma attempt_trace:
  "attempt r p s = (res, s') \<Longrightarrow> trace s' = trace s @ [Called (name p) r (heap s r)]"
  by (auto simp add: attempt_def Let_def split: outcome.splits if_splits)


lemma attempt_fails:
  "fails p (heap s r) \<Longrightarrow>
   \<exists>e. attempt r p s = (Inl e, s\<lparr>trace := trace s @ [Called (name p) r (heap s r)]\<rparr>)"
  by (auto simp add: attempt_def fails_def Let_def split: outcome.splits)


lemma ensure_frame: "ensure r p s = (res, s') \<Longrightarrow> frame s s'"
  by (auto simp add: ensure_def split: prod.splits sum.splits dest: attempt_frame)


lemma ensure_fails:
  "fails p (heap s r) \<Longrightarrow>
   \<exists>e. ensure r p s = (Inl e, s\<lparr>trace := trace s @ [Called (name p) r (heap s r)]\<rparr>)"
  using attempt_fails[of p s r] by (auto simp add: ensure_def)


subsection \<open>The stages\<close>

lemma run_before_frame: "run_before ps r s = (res, s') \<Longrightarrow> frame s s'"
proof (induction ps arbitrary: r s)
  case Nil
  then show ?case by simp
next
  case (Cons p ps)
  obtain x s1 where e: "ensure r p s = (x, s1)" by (cases "ensure r p s")
  have f1: "frame s s1" using e by (rule ensure_frame)
  show ?case
  proof (cases x)
    case (Inl err)
    with e Cons.prems f1 show ?thesis by simp
  next
    case (Inr o1)
    with e Cons.prems have "\<exists>t. run_before ps t s1 = (res, s')"
      by (cases o1) auto
    then obtain t where "run_before ps t s1 = (res, s')" ..
    then have "frame s1 s'" by (rule Cons.IH)
    with f1 show ?thesis by (rule frame_trans)
  qed
qed


lemma run_before_fails:
  "p \<in> set ps \<Longrightarrow> \<forall>c. fails p c \<Longrightarrow> \<exists>e s'. run_before ps r s = (Inl e, s')"
proof (induction ps arbitrary: r s)
  case Nil
  then show ?case by simp
next
  case (Cons q ps)
  obtain x s1 where e: "ensure r q s = (x, s1)" by (cases "ensure r q s")
  show ?case
  proof (cases x)
    case (Inl err)
    with e show ?thesis by simp
  next
    case (Inr o1)
    have "q \<noteq> p"
    proof
      assume "q = p"
      with Cons.prems(2) have "fails q (heap s r)" by simp
      from ensure_fails[OF this] e Inr show False by auto
    qed
    with Cons.prems(1) have "p \<in> set ps" by simp
    from Cons.IH[OF this Cons.prems(2)] e Inr show ?thesis
      by (cases o1) auto
  qed
qed

lemma run_enrichment_frame: "run_enrichment ps r s = (t, s') \<Longrightarrow> frame s s'"
proof (induction ps arbitrary: r s)
  case Nil
  then show ?case by simp
next
  case (Cons p ps)
  obtain x s1 where e: "attempt r p s = (x, s1)" by (cases "attempt r p s")
  have f1: "frame s s1" using e by (rule attempt_frame)
  from e Cons.prems have "\<exists>u. run_enrichment ps u s1 = (t, s')"
    by (cases x) auto
  then obtain u where "run_enrichment ps u s1 = (t, s')" ..
  then have "frame s1 s'" by (rule Cons.IH)
  with f1 show ?case by (rule frame_trans)
qed


lemma deliveryAttempts_frame: "deliveryAttempts ds r s = (ress, s') \<Longrightarrow> frame s s'"
proof (induction ds arbitrary: s ress s')
  case Nil
  then show ?case by simp
next
  case (Cons d ds)
  obtain x s1 where e: "attempt r d s = (x, s1)" by (cases "attempt r d s")
  obtain xs s2 where da: "deliveryAttempts ds r s1 = (xs, s2)" by (cases "deliveryAttempts ds r s1")
  from e da Cons.prems have "s' = s2" by simp
  with Cons.IH[OF da] attempt_frame[OF e] show ?case by (auto intro: frame_trans)
qed


lemma flushOne_frame: "flushOne ctx s = (res, s') \<Longrightarrow> frame s s'"
proof (cases "isReady s")
  case False
  assume "flushOne ctx s = (res, s')"
  with False show ?thesis by (simp add: flushOne_def)
next
  case True
  assume a: "flushOne ctx s = (res, s')"
  let ?b = "filter (\<lambda>p. type p = ''before'') (extensions s)"
  let ?e = "filter (\<lambda>p. type p = ''enrichment'') (extensions s)"
  let ?d = "filter (\<lambda>p. type p = ''destination'') (extensions s)"
  obtain x s1 where rb: "run_before ?b ctx s = (x, s1)" by (cases "run_before ?b ctx s")
  have f1: "frame s s1" using rb by (rule run_before_frame)
  show ?thesis
  proof (cases x)
    case (Inl err)
    with a True rb f1 show ?thesis by (simp add: flushOne_def)
  next
    case (Inr ctx1)
    obtain ctx2 s2 where re: "run_enrichment ?e ctx1 s1 = (ctx2, s2)"
      by (cases "run_enrichment ?e ctx1 s1")
    obtain ress s4 where da: "deliveryAttempts ?d ctx2 (seal ctx2 s2) = (ress, s4)"
      by (cases "deliveryAttempts ?d ctx2 (seal ctx2 s2)")
    from a True rb Inr re da have s': "s' = stats_increment ctx2 ''message_delivered'' s4"
      by (simp add: flushOne_def)
    have "frame s1 s2" using re by (rule run_enrichment_frame)
    moreover have "frame s2 (seal ctx2 s2)" by simp
    moreover have "frame (seal ctx2 s2) s4" using da by (rule deliveryAttempts_frame)
    moreover have "frame s4 s'" by (simp add: s')
    ultimately show ?thesis using f1 by (blast intro: frame_trans)
  qed
qed

subsection \<open>The loop\<close>

lemma flushOne_not_ready: "\<not> isReady s \<Longrightarrow> flushOne ctx s = (Inr None, s)"
  by (simp add: flushOne_def)

lemma isReady_iff: "isReady s \<longleftrightarrow> \<not> (\<exists>p\<in>set (extensions s). \<not> isLoaded p)"
  by (simp add: isReady_def list_all_iff)

lemma flush_body_success:
  "queue s = ctx # rest \<Longrightarrow> flushOne ctx (s\<lparr>queue := rest\<rparr>) = (Inr res, s1) \<Longrightarrow>
   flush_body (fl, s) =
     (fl @ [ctx], ctx_log ctx ''debug'' ''Delivered'' (stats_gauge ctx ''delivered'' s1))"
  by (simp add: flush_body_def)

lemma flush_body_failure:
  "queue s = ctx # rest \<Longrightarrow> flushOne ctx (s\<lparr>queue := rest\<rparr>) = (Inl err, s1) \<Longrightarrow>
   flush_body (fl, s) =
     (fl, (stats_increment ctx ''delivery_failed''
             (ctx_log ctx ''error'' ''Failed to deliver'' s1))\<lparr>queue := rest @ [ctx]\<rparr>)"
proof -
  assume q: "queue s = ctx # rest" and f: "flushOne ctx (s\<lparr>queue := rest\<rparr>) = (Inl err, s1)"
  have "frame (s\<lparr>queue := rest\<rparr>) s1" using f by (rule flushOne_frame)
  then have "queue s1 = rest" by (simp add: frame_def)
  with q f show ?thesis by (simp add: flush_body_def Let_def)
qed

lemma flush_body_engine:
  "flush_body (fl, s) = (fl', s') \<Longrightarrow>
   archive s' = archive s \<and> flushing s' = flushing s \<and> extensions s' = extensions s \<and>
   timers s' = timers s \<and> next_ref s \<le> next_ref s'"
proof (cases "queue s")
  case Nil
  assume "flush_body (fl, s) = (fl', s')"
  with Nil show ?thesis by (simp add: flush_body_def)
next
  case (Cons ctx rest)
  assume a: "flush_body (fl, s) = (fl', s')"
  obtain x s1 where f: "flushOne ctx (s\<lparr>queue := rest\<rparr>) = (x, s1)"
    by (cases "flushOne ctx (s\<lparr>queue := rest\<rparr>)")
  have fr: "frame (s\<lparr>queue := rest\<rparr>) s1" using f by (rule flushOne_frame)
  show ?thesis
  proof (cases x)
    case (Inl err)
    with a Cons f fr show ?thesis by (auto simp add: flush_body_def Let_def frame_def)
  next
    case (Inr res)
    with a Cons f fr show ?thesis by (auto simp add: flush_body_def frame_def)
  qed
qed

lemma flush_loop_done: "queue (snd fs) = [] \<Longrightarrow> flush_loop fs = Some fs"
  by (subst flush_loop.simps) simp

lemma flush_loop_step: "queue (snd fs) \<noteq> [] \<Longrightarrow> flush_loop fs = flush_loop (flush_body fs)"
  by (subst flush_loop.simps) simp

lemma flush_loop_diverges:
  assumes step: "\<And>fs. I fs \<Longrightarrow> queue (snd fs) \<noteq> [] \<and> I (flush_body fs)"
  shows "I fs \<Longrightarrow> flush_loop fs = None"
proof -
  have "\<not> I fs" if "flush_loop fs = Some y" for y
    using that
  proof (rule flush_loop.raw_induct[where P = "\<lambda>fs y. \<not> I fs", rotated])
    fix loop fs y
    assume IH: "\<And>x y. loop x = Some y \<Longrightarrow> \<not> I x"
      and eq: "(if queue (snd fs) \<noteq> [] then loop (flush_body fs) else Some fs) = Some y"
    show "\<not> I fs"
    proof
      assume i: "I fs"
      from step[OF i] have q: "queue (snd fs) \<noteq> []" and i': "I (flush_body fs)" by simp_all
      from eq q have "loop (flush_body fs) = Some y" by simp
      from IH[OF this] i' show False by simp
    qed
  qed
  then show "I fs \<Longrightarrow> flush_loop fs = None" by (cases "flush_loop fs") auto
qed

lemma flush_loop_returns:
  assumes "flush_loop fs = Some fs'"
  shows "queue (snd fs') = [] \<and> archive (snd fs') = archive (snd fs) \<and>
   flushing (snd fs') = flushing (snd fs) \<and> extensions (snd fs') = extensions (snd fs) \<and>
   timers (snd fs') = timers (snd fs)"
  using assms
proof (rule flush_loop.raw_induct[where P = "\<lambda>fs fs'. queue (snd fs') = [] \<and>
   archive (snd fs') = archive (snd fs) \<and> flushing (snd fs') = flushing (snd fs) \<and>
   extensions (snd fs') = extensions (snd fs) \<and> timers (snd fs') = timers (snd fs)", rotated])
  fix loop fs fs'
  assume IH: "\<And>x y. loop x = Some y \<Longrightarrow> queue (snd y) = [] \<and>
   archive (snd y) = archive (snd x) \<and> flushing (snd y) = flushing (snd x) \<and>
   extensions (snd y) = extensions (snd x) \<and> timers (snd y) = timers (snd x)"
    and eq: "(if queue (snd fs) \<noteq> [] then loop (flush_body fs) else Some fs) = Some fs'"
  show "queue (snd fs') = [] \<and> archive (snd fs') = archive (snd fs) \<and>
   flushing (snd fs') = flushing (snd fs) \<and> extensions (snd fs') = extensions (snd fs) \<and>
   timers (snd fs') = timers (snd fs)"
  proof (cases "queue (snd fs) = []")
    case True
    with eq show ?thesis by auto
  next
    case False
    with eq have "loop (flush_body fs) = Some fs'" by simp
    from IH[OF this] flush_body_engine[of "fst fs" "snd fs" "fst (flush_body fs)" "snd (flush_body fs)"]
    show ?thesis by simp
  qed
qed

lemma flush_loop_terminates_iff:
  "(\<exists>y. flush_loop fs = Some y) \<longleftrightarrow> (\<exists>k. queue (snd ((flush_body ^^ k) fs)) = [])"
proof
  assume "\<exists>y. flush_loop fs = Some y"
  then obtain y where "flush_loop fs = Some y" ..
  then show "\<exists>k. queue (snd ((flush_body ^^ k) fs)) = []"
  proof (rule flush_loop.raw_induct[where
        P = "\<lambda>fs y. \<exists>k. queue (snd ((flush_body ^^ k) fs)) = []", rotated])
    fix loop fs y
    assume IH: "\<And>x y. loop x = Some y \<Longrightarrow> \<exists>k. queue (snd ((flush_body ^^ k) x)) = []"
      and eq: "(if queue (snd fs) \<noteq> [] then loop (flush_body fs) else Some fs) = Some y"
    show "\<exists>k. queue (snd ((flush_body ^^ k) fs)) = []"
    proof (cases "queue (snd fs) = []")
      case True
      then have "queue (snd ((flush_body ^^ 0) fs)) = []" by simp
      then show ?thesis ..
    next
      case False
      with eq have "loop (flush_body fs) = Some y" by simp
      from IH[OF this] obtain k where "queue (snd ((flush_body ^^ k) (flush_body fs))) = []" ..
      then have "queue (snd ((flush_body ^^ Suc k) fs)) = []" by (simp add: funpow_swap1)
      then show ?thesis ..
    qed
  qed
next
  assume "\<exists>k. queue (snd ((flush_body ^^ k) fs)) = []"
  then obtain k where "queue (snd ((flush_body ^^ k) fs)) = []" ..
  then show "\<exists>y. flush_loop fs = Some y"
  proof (induction k arbitrary: fs)
    case 0
    then show ?case by (simp add: flush_loop_done)
  next
    case (Suc k)
    show ?case
    proof (cases "queue (snd fs) = []")
      case True
      then show ?thesis by (simp add: flush_loop_done)
    next
      case False
      from Suc.prems have "queue (snd ((flush_body ^^ k) (flush_body fs))) = []"
        by (simp add: funpow_swap1)
      from Suc.IH[OF this] flush_loop_step[OF False] show ?thesis by simp
    qed
  qed
qed

lemma flush_loop_not_ready:
  "\<not> isReady s \<Longrightarrow>
   \<exists>s'. flush_loop (fl, s) = Some (fl @ queue s, s') \<and> queue s' = [] \<and> trace s' = trace s \<and>
        extensions s' = extensions s \<and> archive s' = archive s \<and>
        (\<forall>r. payload (heap s' r) = payload (heap s r) \<and> sealed (heap s' r) = sealed (heap s r))"
proof (induction "queue s" arbitrary: fl s)
  case Nil
  then have "flush_loop (fl, s) = Some (fl, s)" by (simp add: flush_loop_done)
  with Nil show ?case by simp
next
  case (Cons ctx rest)
  let ?s0 = "s\<lparr>queue := rest\<rparr>"
  let ?s1 = "ctx_log ctx ''debug'' ''Delivered'' (stats_gauge ctx ''delivered'' ?s0)"
  have nr: "\<not> isReady ?s0" using Cons.prems by (simp add: isReady_def)
  have q: "queue s = ctx # rest" using Cons.hyps(2) by simp
  have body: "flush_body (fl, s) = (fl @ [ctx], ?s1)"
    using q flushOne_not_ready[OF nr] by (rule flush_body_success)
  have "flush_loop (fl, s) = flush_loop (flush_body (fl, s))"
    using q by (simp add: flush_loop_step)
  with body have loop: "flush_loop (fl, s) = flush_loop (fl @ [ctx], ?s1)" by simp
  have "rest = queue ?s1" by simp
  moreover have "\<not> isReady ?s1" using Cons.prems by (simp add: isReady_def)
  ultimately obtain s' where
    "flush_loop (fl @ [ctx], ?s1) = Some ((fl @ [ctx]) @ queue ?s1, s')" "queue s' = []"
    "trace s' = trace ?s1" "extensions s' = extensions ?s1" "archive s' = archive ?s1"
    "\<forall>r. payload (heap s' r) = payload (heap ?s1 r) \<and> sealed (heap s' r) = sealed (heap ?s1 r)"
    using Cons.hyps(1)[of ?s1 "fl @ [ctx]"] by blast
  with loop q show ?case by simp
qed

subsection \<open>Failing events\<close>

lemma flushOne_fails:
  assumes "isReady s" "p \<in> set (extensions s)" "type p = ''before''" "\<forall>c. fails p c"
  shows "\<exists>e s'. flushOne ctx s = (Inl e, s')"
proof -
  from assms(2,3) have "p \<in> set (filter (\<lambda>p. type p = ''before'') (extensions s))" by simp
  from run_before_fails[OF this assms(4)] obtain e s'
    where "run_before (filter (\<lambda>p. type p = ''before'') (extensions s)) ctx s = (Inl e, s')"
    by blast
  with assms(1) have "flushOne ctx s = (Inl e, s')" by (simp add: flushOne_def)
  then show ?thesis by blast
qed

lemma flush_body_queue:
  assumes "queue s = c # rest"
  shows "queue (snd (flush_body (fl, s))) = rest \<or> queue (snd (flush_body (fl, s))) = rest @ [c]"
proof -
  obtain x s1 where f: "flushOne c (s\<lparr>queue := rest\<rparr>) = (x, s1)"
    by (cases "flushOne c (s\<lparr>queue := rest\<rparr>)")
  have "frame (s\<lparr>queue := rest\<rparr>) s1" using f by (rule flushOne_frame)
  then have q1: "queue s1 = rest" by (simp add: frame_def)
  show ?thesis
  proof (cases x)
    case (Inl err)
    with f flush_body_failure[OF assms, of err s1 fl] show ?thesis by simp
  next
    case (Inr res)
    with f flush_body_success[OF assms, of res s1 fl] q1 show ?thesis by simp
  qed
qed

lemma flush_body_queue_cases:
  assumes "queue s = c # rest"
  shows "queue (snd (flush_body (fl, s))) =
           (case fst (flushOne c (s\<lparr>queue := rest\<rparr>)) of
              Inl e \<Rightarrow> rest @ [c]
            | Inr r \<Rightarrow> rest)"
proof -
  obtain x s1 where f: "flushOne c (s\<lparr>queue := rest\<rparr>) = (x, s1)"
    by (cases "flushOne c (s\<lparr>queue := rest\<rparr>)")
  have "frame (s\<lparr>queue := rest\<rparr>) s1" using f by (rule flushOne_frame)
  then have q1: "queue s1 = rest" by (simp add: frame_def)
  show ?thesis
  proof (cases x)
    case (Inl err)
    with f flush_body_failure[OF assms, of err s1 fl] show ?thesis by simp
  next
    case (Inr res)
    with f flush_body_success[OF assms, of res s1 fl] q1 show ?thesis by simp
  qed
qed

lemma flush_loop_never_returns:
  assumes pending: "ctx \<in> set (queue s)"
    and always: "\<forall>s'. extensions s' = extensions s \<longrightarrow> (\<exists>e s''. flushOne ctx s' = (Inl e, s''))"
  shows "flush_loop (fl, s) = None"
proof -
  let ?I = "\<lambda>fs. ctx \<in> set (queue (snd fs)) \<and> extensions (snd fs) = extensions s"
  have step: "queue (snd fs) \<noteq> [] \<and> ?I (flush_body fs)" if i: "?I fs" for fs
  proof -
    obtain fl1 s1 where fs: "fs = (fl1, s1)" by (cases fs)
    from i fs have mem: "ctx \<in> set (queue s1)" and ext: "extensions s1 = extensions s" by simp_all
    from mem obtain c rest where q: "queue s1 = c # rest" by (cases "queue s1") auto
    have e': "extensions (snd (flush_body (fl1, s1))) = extensions s"
      using flush_body_engine[of fl1 s1 "fst (flush_body (fl1, s1))" "snd (flush_body (fl1, s1))"] ext
      by simp
    have "ctx \<in> set (queue (snd (flush_body (fl1, s1))))"
    proof (cases "c = ctx")
      case True
      have "extensions (s1\<lparr>queue := rest\<rparr>) = extensions s" using ext by simp
      with always obtain e s2 where "flushOne ctx (s1\<lparr>queue := rest\<rparr>) = (Inl e, s2)" by blast
      with q True flush_body_failure[of s1 ctx rest e s2 fl1] show ?thesis by simp
    next
      case False
      with mem q have "ctx \<in> set rest" by simp
      with flush_body_queue[OF q, of fl1] show ?thesis by auto
    qed
    with e' q fs show ?thesis by simp
  qed
  have "?I (fl, s)" using pending by simp
  with step show ?thesis by (rule flush_loop_diverges[where I = ?I])
qed

subsection \<open>Runs and fixtures\<close>

lemma dispatched_fields:
  "queue (dispatched config) = [0]" "extensions (dispatched config) = config"
  "trace (dispatched config) = []" "archive (dispatched config) = []"
  "next_ref (dispatched config) = 1"
  by (simp_all add: dispatched_def engine_def constructor_def new_context_def)

lemma flush_archive: "flush s = Some (fl, s') \<Longrightarrow> archive s' = archive s \<and> queue s' = []"
  using flush_loop_returns[of "([], s)" "(fl, s')"] by (simp add: flush_def)

lemma apply_operation_archive: "apply_operation x s = Some s' \<Longrightarrow> archive s' = archive s"
proof (cases x)
  case (NewContext c)
  assume "apply_operation x s = Some s'"
  with NewContext show ?thesis by (auto simp add: new_context_def)
next
  case (Dispatch ctx)
  assume "apply_operation x s = Some s'"
  with Dispatch show ?thesis by auto
next
  case (Register e)
  assume "apply_operation x s = Some s'"
  with Register show ?thesis by (auto simp add: register_def split: sum.splits)
next
  case Flush
  assume "apply_operation x s = Some s'"
  with Flush obtain fl where "flush s = Some (fl, s')" by auto
  then show ?thesis by (simp add: flush_archive)
next
  case (FlushOne ctx)
  assume "apply_operation x s = Some s'"
  with FlushOne have "flushOne ctx s = (fst (flushOne ctx s), s')" by auto
  then have "frame s s'" by (rule flushOne_frame)
  then show ?thesis by (simp add: frame_def)
next
  case TimerFires
  assume a: "apply_operation x s = Some s'"
  show ?thesis
  proof (cases "timers s = 0")
    case True
    with a TimerFires show ?thesis by simp
  next
    case False
    with a TimerFires have "timer_callback s = Some s'" by simp
    then obtain fl s1 where f: "flush (s\<lparr>timers := timers s - 1, flushing := True\<rparr>) = Some (fl, s1)"
      and s': "s' = scheduleFlush (s1\<lparr>flushing := False\<rparr>)"
      by (auto simp add: timer_callback_def split: option.splits)
    from flush_archive[OF f] s' show ?thesis by simp
  qed
qed

lemma run_archive: "run xs s = Some s' \<Longrightarrow> archive s' = archive s"
proof (induction xs arbitrary: s)
  case Nil
  then show ?case by simp
next
  case (Cons x xs)
  then obtain s1 where a: "apply_operation x s = Some s1" and r: "run xs s1 = Some s'"
    by (auto split: option.splits)
  from Cons.IH[OF r] apply_operation_archive[OF a] show ?case by simp
qed

lemma init_archive: "init config = Inr s0 \<Longrightarrow> archive s0 = []"
  by (auto simp add: init_def Let_def constructor_def split: option.splits)

lemma before_bad_fields:
  "type before_bad = ''before''" "isLoaded before_bad" "\<forall>c. fails before_bad c"
  "name before_bad = ''gate''"
  by (simp_all add: before_bad_def plugin_def fails_def)

lemma engine_fields:
  "queue (engine config) = []" "extensions (engine config) = config"
  "trace (engine config) = []" "archive (engine config) = []"
  "next_ref (engine config) = 1" "heap (engine config) 0 = track"
  by (simp_all add: engine_def constructor_def new_context_def)

lemma flushOne_ready:
  assumes "isReady s"
    and "run_before (filter (\<lambda>p. type p = ''before'') (extensions s)) ctx s = (Inr ctx1, s1)"
    and "run_enrichment (filter (\<lambda>p. type p = ''enrichment'') (extensions s)) ctx1 s1 = (ctx2, s2)"
    and "deliveryAttempts (filter (\<lambda>p. type p = ''destination'') (extensions s)) ctx2 (seal ctx2 s2)
           = (ress, s4)"
  shows "flushOne ctx s = (Inr (Some ctx2), stats_increment ctx2 ''message_delivered'' s4)"
  using assms by (simp add: flushOne_def)

lemma flush_single_success:
  assumes "queue s = [ctx]" and "flushOne ctx (s\<lparr>queue := []\<rparr>) = (Inr res, s1)"
  shows "flush s = Some ([ctx], ctx_log ctx ''debug'' ''Delivered'' (stats_gauge ctx ''delivered'' s1))"
proof -
  have "frame (s\<lparr>queue := []\<rparr>) s1" using assms(2) by (rule flushOne_frame)
  then have q1: "queue s1 = []" by (simp add: frame_def)
  have "flush_body ([], s) = ([] @ [ctx], ctx_log ctx ''debug'' ''Delivered'' (stats_gauge ctx ''delivered'' s1))"
    using assms by (rule flush_body_success)
  moreover have "flush_loop ([], s) = flush_loop (flush_body ([], s))"
    using assms(1) by (simp add: flush_loop_step)
  ultimately show ?thesis using q1 by (simp add: flush_def flush_loop_done)
qed

lemma plugin_fields [simp]:
  "name (plugin n t f) = n" "type (plugin n t f) = t" "isLoaded (plugin n t f)"
  "process (plugin n t f) = f"
  by (simp_all add: plugin_def)

lemma fixture_names:
  "name enrichment_bad = ''enrich''" "name destination_ok = ''good''"
  by (simp_all add: enrichment_bad_def destination_ok_def)



subsection \<open>Passes of the loop\<close>

lemma flush_body_after_try:
  assumes "next_try fs = Some (c, r)"
  shows "\<exists>rest. queue (snd fs) = c # rest \<and>
           queue (snd (flush_body fs)) = (case r of Inl e \<Rightarrow> rest @ [c] | Inr v \<Rightarrow> rest)"
proof -
  from assms obtain rest where q: "queue (snd fs) = c # rest"
    and r: "r = fst (flushOne c ((snd fs)\<lparr>queue := rest\<rparr>))"
    by (auto simp add: next_try_def split: list.splits)
  from flush_body_queue_cases[OF q, of "fst fs"] r q show ?thesis by simp
qed

lemma passes_rotate:
  "queue (snd fs) = xs @ ys \<Longrightarrow> k \<le> length xs \<Longrightarrow>
   \<exists>zs. queue (snd ((flush_body ^^ k) fs)) = drop k xs @ ys @ zs"
proof (induction k arbitrary: fs xs ys)
  case 0
  then show ?case by simp
next
  case (Suc k)
  then obtain x xs' where xs: "xs = x # xs'" by (cases xs) auto
  with Suc.prems have q: "queue (snd fs) = x # (xs' @ ys)" by simp
  from flush_body_queue[OF q, of "fst fs"]
  have "\<exists>z1. queue (snd (flush_body fs)) = xs' @ (ys @ z1)" by auto
  then obtain z1 where "queue (snd (flush_body fs)) = xs' @ (ys @ z1)" ..
  moreover have "k \<le> length xs'" using Suc.prems(2) xs by simp
  ultimately obtain zs where
    "queue (snd ((flush_body ^^ k) (flush_body fs))) = drop k xs' @ (ys @ z1) @ zs"
    using Suc.IH by blast
  then have "queue (snd ((flush_body ^^ Suc k) fs)) = drop (Suc k) xs @ ys @ (z1 @ zs)"
    by (simp add: funpow_swap1 xs)
  then show ?case by blast
qed

lemma flush_loop_funpow:
  "(\<And>j. j < k \<Longrightarrow> queue (snd ((flush_body ^^ j) fs)) \<noteq> []) \<Longrightarrow>
   flush_loop fs = flush_loop ((flush_body ^^ k) fs)"
proof (induction k)
  case 0
  show ?case by simp
next
  case (Suc k)
  have "flush_loop fs = flush_loop ((flush_body ^^ k) fs)" using Suc.prems by (intro Suc.IH) simp
  also have "\<dots> = flush_loop (flush_body ((flush_body ^^ k) fs))"
    using Suc.prems[of k] by (simp add: flush_loop_step)
  finally show ?case by simp
qed

lemma flush_loop_result:
  assumes "flush_loop fs = Some y"
  shows "\<exists>k. y = (flush_body ^^ k) fs \<and> queue (snd y) = []"
  using assms
proof (rule flush_loop.raw_induct[where
        P = "\<lambda>fs y. \<exists>k. y = (flush_body ^^ k) fs \<and> queue (snd y) = []", rotated])
  fix loop fs y
  assume IH: "\<And>x y. loop x = Some y \<Longrightarrow> \<exists>k. y = (flush_body ^^ k) x \<and> queue (snd y) = []"
    and eq: "(if queue (snd fs) \<noteq> [] then loop (flush_body fs) else Some fs) = Some y"
  show "\<exists>k. y = (flush_body ^^ k) fs \<and> queue (snd y) = []"
  proof (cases "queue (snd fs) = []")
    case True
    with eq have "y = (flush_body ^^ 0) fs \<and> queue (snd y) = []" by simp
    then show ?thesis ..
  next
    case False
    with eq have "loop (flush_body fs) = Some y" by simp
    from IH[OF this] obtain k where "y = (flush_body ^^ k) (flush_body fs)" "queue (snd y) = []"
      by blast
    then have "y = (flush_body ^^ Suc k) fs \<and> queue (snd y) = []" by (simp add: funpow_swap1)
    then show ?thesis ..
  qed
qed

lemma flush_loop_fails_every_try:
  assumes pending: "ctx \<in> set (queue (snd fs))"
    and every_try: "\<And>k r. next_try ((flush_body ^^ k) fs) = Some (ctx, r) \<Longrightarrow> isl r"
  shows "flush_loop fs = None"
proof -
  let ?I = "\<lambda>x. \<exists>k. x = (flush_body ^^ k) fs \<and> ctx \<in> set (queue (snd x))"
  have step: "queue (snd x) \<noteq> [] \<and> ?I (flush_body x)" if i: "?I x" for x
  proof -
    from i obtain k where x: "x = (flush_body ^^ k) fs" and mem: "ctx \<in> set (queue (snd x))"
      by blast
    from mem obtain c rest where q: "queue (snd x) = c # rest" by (cases "queue (snd x)") auto
    have fb: "flush_body x = (flush_body ^^ Suc k) fs" using x by simp
    have "ctx \<in> set (queue (snd (flush_body x)))"
    proof (cases "c = ctx")
      case True
      let ?r = "fst (flushOne ctx ((snd x)\<lparr>queue := rest\<rparr>))"
      have nt: "next_try x = Some (ctx, ?r)" using q True by (simp add: next_try_def)
      with x have "isl ?r" using every_try[of k ?r] by simp
      then obtain e where "?r = Inl e" by (cases ?r) auto
      with flush_body_after_try[OF nt] q True show ?thesis by auto
    next
      case False
      with mem q have "ctx \<in> set rest" by simp
      with flush_body_queue[OF q, of "fst x"] show ?thesis by auto
    qed
    with fb have "?I (flush_body x)" by blast
    with q show ?thesis by simp
  qed
  have "?I fs"
  proof -
    have "fs = (flush_body ^^ 0) fs \<and> ctx \<in> set (queue (snd fs))" using pending by simp
    then show ?thesis ..
  qed
  with step show ?thesis by (rule flush_loop_diverges[where I = ?I])
qed

lemma flush_body_nothing_pending: "queue (snd fs) = [] \<Longrightarrow> flush_body fs = fs"
  by (cases fs) (simp add: flush_body_def)

lemma flush_body_queue_shrinks:
  "set (queue (snd (flush_body fs))) \<subseteq> set (queue (snd fs)) \<and>
   (distinct (queue (snd fs)) \<longrightarrow> distinct (queue (snd (flush_body fs))))"
proof (cases "queue (snd fs)")
  case Nil
  then show ?thesis by (simp add: flush_body_nothing_pending)
next
  case (Cons c rest)
  from flush_body_queue[OF Cons, of "fst fs"] Cons show ?thesis by auto
qed

lemma passes_queue_shrinks:
  "set (queue (snd ((flush_body ^^ k) fs))) \<subseteq> set (queue (snd fs)) \<and>
   (distinct (queue (snd fs)) \<longrightarrow> distinct (queue (snd ((flush_body ^^ k) fs))))"
proof (induction k)
  case 0
  show ?case by simp
next
  case (Suc k)
  from flush_body_queue_shrinks[of "(flush_body ^^ k) fs"] Suc show ?case by auto
qed

lemma gone_stays_gone:
  "c \<notin> set (queue (snd ((flush_body ^^ k) fs))) \<Longrightarrow> k \<le> m \<Longrightarrow>
   c \<notin> set (queue (snd ((flush_body ^^ m) fs)))"
proof -
  assume gone: "c \<notin> set (queue (snd ((flush_body ^^ k) fs)))" and le: "k \<le> m"
  then obtain j where m: "m = j + k" by (metis le_add_diff_inverse2)
  have "(flush_body ^^ m) fs = (flush_body ^^ j) ((flush_body ^^ k) fs)"
    by (simp add: m funpow_add)
  with passes_queue_shrinks[of j "(flush_body ^^ k) fs"] gone show ?thesis by auto
qed

lemma all_gone_at_once:
  assumes "\<forall>c\<in>set xs. \<exists>k. c \<notin> set (queue (snd ((flush_body ^^ k) fs)))"
  shows "\<exists>m. \<forall>c\<in>set xs. c \<notin> set (queue (snd ((flush_body ^^ m) fs)))"
  using assms
proof (induction xs)
  case Nil
  show ?case by simp
next
  case (Cons x xs)
  then obtain m where m: "\<forall>c\<in>set xs. c \<notin> set (queue (snd ((flush_body ^^ m) fs)))" by auto
  from Cons.prems obtain k where k: "x \<notin> set (queue (snd ((flush_body ^^ k) fs)))" by auto
  have "\<forall>c\<in>set (x # xs). c \<notin> set (queue (snd ((flush_body ^^ max k m) fs)))"
    using m k gone_stays_gone[of _ m fs "max k m"] gone_stays_gone[of x k fs "max k m"]
    by auto
  then show ?case ..
qed

lemma flush_loop_returns_iff_all_succeed:
  assumes "distinct (queue (snd fs))"
  shows "(\<exists>y. flush_loop fs = Some y) \<longleftrightarrow>
         (\<forall>c\<in>set (queue (snd fs)).
            \<exists>k r. next_try ((flush_body ^^ k) fs) = Some (c, r) \<and> \<not> isl r)"
proof
  assume ret: "\<exists>y. flush_loop fs = Some y"
  show "\<forall>c\<in>set (queue (snd fs)). \<exists>k r. next_try ((flush_body ^^ k) fs) = Some (c, r) \<and> \<not> isl r"
  proof (rule ccontr)
    assume "\<not> ?thesis"
    then obtain c where c: "c \<in> set (queue (snd fs))"
      and never: "\<And>k r. next_try ((flush_body ^^ k) fs) = Some (c, r) \<Longrightarrow> isl r"
      by blast
    from c never have "flush_loop fs = None" by (rule flush_loop_fails_every_try)
    with ret show False by simp
  qed
next
  assume all: "\<forall>c\<in>set (queue (snd fs)).
            \<exists>k r. next_try ((flush_body ^^ k) fs) = Some (c, r) \<and> \<not> isl r"
  have "\<forall>c\<in>set (queue (snd fs)). \<exists>k. c \<notin> set (queue (snd ((flush_body ^^ k) fs)))"
  proof
    fix c assume "c \<in> set (queue (snd fs))"
    with all obtain k r where nt: "next_try ((flush_body ^^ k) fs) = Some (c, r)"
      and ok: "\<not> isl r" by blast
    from flush_body_after_try[OF nt] obtain rest where
      q: "queue (snd ((flush_body ^^ k) fs)) = c # rest"
      and q': "queue (snd (flush_body ((flush_body ^^ k) fs))) =
                 (case r of Inl e \<Rightarrow> rest @ [c] | Inr v \<Rightarrow> rest)"
      by blast
    from ok q' have "queue (snd ((flush_body ^^ Suc k) fs)) = rest" by (cases r) auto
    moreover have "distinct (c # rest)"
      using passes_queue_shrinks[of k fs] assms q by auto
    ultimately have "c \<notin> set (queue (snd ((flush_body ^^ Suc k) fs)))" by simp
    then show "\<exists>k. c \<notin> set (queue (snd ((flush_body ^^ k) fs)))" ..
  qed
  from all_gone_at_once[OF this] obtain m where
    "\<forall>c\<in>set (queue (snd fs)). c \<notin> set (queue (snd ((flush_body ^^ m) fs)))" ..
  moreover have "set (queue (snd ((flush_body ^^ m) fs))) \<subseteq> set (queue (snd fs))"
    using passes_queue_shrinks[of m fs] by simp
  ultimately have "\<forall>c. c \<notin> set (queue (snd ((flush_body ^^ m) fs)))"
    by (meson subsetD)
  then have "set (queue (snd ((flush_body ^^ m) fs))) = {}" by simp
  then have "queue (snd ((flush_body ^^ m) fs)) = []" by simp
  then have "\<exists>k. queue (snd ((flush_body ^^ k) fs)) = []" ..
  then show "\<exists>y. flush_loop fs = Some y" by (simp only: flush_loop_terminates_iff)
qed

lemma picky_pass:
  assumes "extensions (snd fs) = [before_picky]"
  shows "extensions (snd (flush_body fs)) = [before_picky] \<and>
         payload (heap (snd (flush_body fs)) r) = payload (heap (snd fs) r)"
proof -
  obtain fl s where fs: "fs = (fl, s)" by (cases fs)
  have "extensions (snd (flush_body fs)) = [before_picky]"
    using flush_body_engine[of fl s "fst (flush_body fs)" "snd (flush_body fs)"] assms fs by simp
  moreover have "payload (heap (snd (flush_body fs)) r) = payload (heap (snd fs) r)"
    using assms fs
    by (auto simp add: flush_body_def flushOne_def isReady_def ensure_def attempt_def Let_def
        before_picky_def plugin_def split: list.splits)
  ultimately show ?thesis by simp
qed

lemma picky_passes:
  assumes "extensions (snd fs) = [before_picky]"
  shows "extensions (snd ((flush_body ^^ k) fs)) = [before_picky] \<and>
         payload (heap (snd ((flush_body ^^ k) fs)) r) = payload (heap (snd fs) r)"
proof (induction k)
  case 0
  with assms show ?case by simp
next
  case (Suc k)
  with picky_pass[of "(flush_body ^^ k) fs" r] show ?case by simp
qed

lemma dispatched_poison_fields:
  "queue (dispatched_poison config) = [0, 1]" "extensions (dispatched_poison config) = config"
  "payload (heap (dispatched_poison config) 1) = ''poison''"
  by (simp_all add: dispatched_poison_def dispatched_fields new_context_def dispatch_def Let_def
      poison_def)

lemma dispatched_two_fields:
  "queue (dispatched_two config) = [0, 1]" "extensions (dispatched_two config) = config"
  by (simp_all add: dispatched_two_def dispatched_fields new_context_def dispatch_def Let_def)

section \<open>Properties of the engine\<close>

text \<open>
  C6: for every sequence of \<^verbatim>\<open>dispatch\<close> calls with no flush in between, the pending
  buffer holds what it held before followed by exactly the dispatched events, in the
  order of the calls; each call resolves with the very event object it was given.
  \<^verbatim>\<open>dispatch\<close> has no failing path: it is a total function with no error result.
\<close>

theorem dispatch_fifo:
  "queue (snd (dispatch_all ctxs s)) = queue s @ ctxs \<and> fst (dispatch_all ctxs s) = ctxs
   \<and> fst (dispatch ctx s) = ctx \<and> queue (snd (dispatch ctx s)) = queue s @ [ctx]"
proof -
  have "queue (snd (dispatch_all ctxs s)) = queue s @ ctxs \<and> fst (dispatch_all ctxs s) = ctxs"
  proof (induction ctxs arbitrary: s)
    case Nil
    show ?case by simp
  next
    case (Cons c cs)
    obtain r s' where d: "dispatch c s = (r, s')" by (cases "dispatch c s")
    from d have r: "r = c" and q: "queue s' = queue s @ [c]"
      using dispatch_fields(1,2)[of c s] by simp_all
    obtain rs s'' where da: "dispatch_all cs s' = (rs, s'')" by (cases "dispatch_all cs s'")
    from Cons.IH[of s'] da have "queue s'' = queue s' @ cs" "rs = cs" by simp_all
    with d da r q show ?case by simp
  qed
  then show ?thesis by simp
qed

text \<open>
  C7: \<^verbatim>\<open>flush\<close> on an engine with nothing pending returns the empty list, without error,
  and leaves the whole state as it was.
\<close>

theorem flush_nothing_pending: "queue s = [] \<Longrightarrow> flush s = Some ([], s)"
  by (simp add: flush_def flush_loop_done)

theorem flush_nothing_pending_witness:
  "queue (constructor []) = [] \<and> flush (constructor []) = Some ([], constructor [])"
proof -
  have q: "queue (constructor []) = []" by (simp add: constructor_def)
  from flush_nothing_pending[OF q] q show ?thesis by simp
qed

text \<open>
  C3: when some registered plugin is not loaded, \<^verbatim>\<open>flushOne\<close> returns at the readiness
  gate without touching anything, and \<^verbatim>\<open>flush\<close> returns every pending event as flushed:
  the pending buffer ends up empty, nothing is put back, and no plugin was called and
  no event sealed (the observations are those made before the call).
\<close>

theorem flush_not_ready:
  assumes "\<exists>p\<in>set (extensions s). \<not> isLoaded p"
  shows "(\<forall>ctx. flushOne ctx s = (Inr None, s)) \<and>
         (\<exists>s'. flush s = Some (queue s, s') \<and> queue s' = [] \<and> trace s' = trace s \<and>
               extensions s' = extensions s \<and> archive s' = archive s \<and>
               (\<forall>r. payload (heap s' r) = payload (heap s r) \<and>
                    sealed (heap s' r) = sealed (heap s r)))"
proof -
  from assms have nr: "\<not> isReady s" by (simp add: isReady_iff)
  then have "\<forall>ctx. flushOne ctx s = (Inr None, s)" by (simp add: flushOne_not_ready)
  moreover from flush_loop_not_ready[OF nr, of "[]"]
  have "\<exists>s'. flush s = Some (queue s, s') \<and> queue s' = [] \<and> trace s' = trace s \<and>
               extensions s' = extensions s \<and> archive s' = archive s \<and>
               (\<forall>r. payload (heap s' r) = payload (heap s r) \<and>
                    sealed (heap s' r) = sealed (heap s r))"
    by (simp add: flush_def)
  ultimately show ?thesis by simp
qed

theorem flush_not_ready_witness:
  "(\<exists>p\<in>set (extensions (snd (dispatch 0 (engine [(plugin ''d'' ''destination'' (\<lambda>c. Pass))\<lparr>isLoaded := False\<rparr>])))). \<not> isLoaded p)
   \<and> observe (flush (snd (dispatch 0 (engine [(plugin ''d'' ''destination'' (\<lambda>c. Pass))\<lparr>isLoaded := False\<rparr>]))))
       = Some ([0], [], [])"
proof -
  let ?s = "snd (dispatch 0 (engine [(plugin ''d'' ''destination'' (\<lambda>c. Pass))\<lparr>isLoaded := False\<rparr>]))"
  have h: "\<exists>p\<in>set (extensions ?s). \<not> isLoaded p"
    by (simp add: engine_def constructor_def new_context_def plugin_def)
  have q: "queue ?s = [0]" and t: "trace ?s = []"
    by (simp_all add: engine_def constructor_def new_context_def)
  from flush_not_ready[OF h] obtain s' where
    "flush ?s = Some (queue ?s, s')" "queue s' = []" "trace s' = trace ?s" by blast
  with q t have "observe (flush ?s) = Some ([0], [], [])" by (simp add: observe_def)
  with h show ?thesis by simp
qed

text \<open>
  C10: \<^verbatim>\<open>flush\<close> returns exactly when the pending buffer becomes empty after finitely many
  runs of the loop body. A run of the body takes the event at the head out of the
  buffer for good when \<^verbatim>\<open>flushOne\<close> does not fail on it (success, or the return at the
  readiness gate), and pushes it back at the tail when \<^verbatim>\<open>flushOne\<close> fails: the queue
  whose length the loop condition inspects is the one failed events go back to. So
  when one pending event fails in \<^verbatim>\<open>flushOne\<close> at every try of this call (each time a
  run of the body takes it from the head), the call of \<^verbatim>\<open>flush\<close> never returns, whatever
  happens to the other events. And when no event is pending twice, \<^verbatim>\<open>flush\<close> returns if
  and only if for every pending event there is a try at which \<^verbatim>\<open>flushOne\<close> does not fail
  on it.
\<close>

theorem flush_termination:
  "((\<exists>y. flush s = Some y) \<longleftrightarrow> (\<exists>k. queue (snd ((flush_body ^^ k) ([], s))) = [])) \<and>
   (queue s = c # rest \<longrightarrow>
      queue (snd (flush_body (fl, s))) =
        (case fst (flushOne c (s\<lparr>queue := rest\<rparr>)) of
           Inl e \<Rightarrow> rest @ [c]
         | Inr r \<Rightarrow> rest)) \<and>
   (ctx \<in> set (queue s) \<and>
    (\<forall>k r. next_try ((flush_body ^^ k) ([], s)) = Some (ctx, r) \<longrightarrow> isl r)
      \<longrightarrow> flush s = None) \<and>
   (distinct (queue s) \<longrightarrow>
      ((\<exists>y. flush s = Some y) \<longleftrightarrow>
       (\<forall>c\<in>set (queue s).
          \<exists>k r. next_try ((flush_body ^^ k) ([], s)) = Some (c, r) \<and> \<not> isl r)))"
proof -
  have 1: "(\<exists>y. flush s = Some y) \<longleftrightarrow> (\<exists>k. queue (snd ((flush_body ^^ k) ([], s))) = [])"
    using flush_loop_terminates_iff[of "([], s)"] by (simp add: flush_def)
  have 2: "queue s = c # rest \<longrightarrow>
      queue (snd (flush_body (fl, s))) =
        (case fst (flushOne c (s\<lparr>queue := rest\<rparr>)) of
           Inl e \<Rightarrow> rest @ [c]
         | Inr r \<Rightarrow> rest)"
    using flush_body_queue_cases[of s c rest fl] by simp
  have 3: "ctx \<in> set (queue s) \<and>
    (\<forall>k r. next_try ((flush_body ^^ k) ([], s)) = Some (ctx, r) \<longrightarrow> isl r)
      \<longrightarrow> flush s = None"
    using flush_loop_fails_every_try[of ctx "([], s)"] by (auto simp add: flush_def)
  have 4: "distinct (queue s) \<longrightarrow>
      ((\<exists>y. flush s = Some y) \<longleftrightarrow>
       (\<forall>c\<in>set (queue s).
          \<exists>k r. next_try ((flush_body ^^ k) ([], s)) = Some (c, r) \<and> \<not> isl r))"
    using flush_loop_returns_iff_all_succeed[of "([], s)"] by (simp add: flush_def)
  from 1 2 3 4 show ?thesis by blast
qed

theorem flush_termination_witness:
  "1 \<in> set (queue (dispatched_poison [before_picky])) \<and>
   distinct (queue (dispatched_poison [before_picky])) \<and>
   queue (dispatched_poison [before_picky]) = 0 # [1] \<and>
   fst (flushOne 0 ((dispatched_poison [before_picky])\<lparr>queue := [1]\<rparr>)) = Inr (Some 0) \<and>
   queue (snd (flush_body ([], dispatched_poison [before_picky]))) = [1] \<and>
   flush (dispatched_poison [before_picky]) = None \<and>
   \<not> (\<exists>k. queue (snd ((flush_body ^^ k) ([], dispatched_poison [before_picky]))) = [])"
proof -
  let ?s = "dispatched_poison [before_picky]"
  have a: "1 \<in> set (queue ?s)" and d: "distinct (queue ?s)" and q: "queue ?s = 0 # [1]"
    by (simp_all add: dispatched_poison_fields)
  have x: "extensions (snd ([], ?s)) = [before_picky]" by (simp add: dispatched_poison_fields)
  have b: "\<forall>k r. next_try ((flush_body ^^ k) ([], ?s)) = Some (1, r) \<longrightarrow> isl r"
  proof (intro allI impI)
    fix k r
    assume nt: "next_try ((flush_body ^^ k) ([], ?s)) = Some (1, r)"
    let ?t = "snd ((flush_body ^^ k) ([], ?s))"
    have p0: "payload (heap (snd ([], ?s)) 1) = ''poison''"
      using dispatched_poison_fields(3)[of "[before_picky]"] by simp
    from picky_passes[OF x, of k 1] p0
    have xt: "extensions ?t = [before_picky]" and pt: "payload (heap ?t 1) = ''poison''"
      by (simp_all only:)
    from nt obtain rest where r: "r = fst (flushOne 1 (?t\<lparr>queue := rest\<rparr>))"
      by (auto simp add: next_try_def split: list.splits)
    have "isReady (?t\<lparr>queue := rest\<rparr>)" using xt by (simp add: isReady_def before_picky_def)
    moreover have "before_picky \<in> set (extensions (?t\<lparr>queue := rest\<rparr>))" using xt by simp
    moreover have "type before_picky = ''before''" by (simp add: before_picky_def)
    moreover have "fails before_picky (heap (?t\<lparr>queue := rest\<rparr>) 1)"
      using pt by (simp add: fails_def before_picky_def)
    ultimately have "\<exists>e s''. flushOne 1 (?t\<lparr>queue := rest\<rparr>) = (Inl e, s'')"
      using xt ensure_fails[of before_picky "?t\<lparr>queue := rest\<rparr>" 1]
      by (auto simp add: flushOne_def)
    with r show "isl r" by auto
  qed
  have ok: "fst (flushOne 0 (?s\<lparr>queue := [1]\<rparr>)) = Inr (Some 0)" by code_simp
  note t = flush_termination[of ?s 0 "[1]" "[]" 1]
  from t q ok have body: "queue (snd (flush_body ([], ?s))) = [1]" by simp
  from t a b have n: "flush ?s = None" by blast
  with t have "\<not> (\<exists>k. queue (snd ((flush_body ^^ k) ([], ?s))) = [])" by simp
  with a d q ok body n show ?thesis by blast
qed

text \<open>
  C9: the archive buffer is empty after \<^verbatim>\<open>init\<close>, and it is still empty after any sequence
  of operations on the engine (events created, \<^verbatim>\<open>dispatch\<close>, \<^verbatim>\<open>register\<close>, \<^verbatim>\<open>flush\<close>,
  \<^verbatim>\<open>flushOne\<close>, the timer callback): no event is ever in the pending buffer and in the
  archive at once.
\<close>

theorem archive_never_populated:
  assumes "init config = Inr s0" and "run ops s0 = Some s"
  shows "archive s0 = [] \<and> archive s = [] \<and> set (queue s) \<inter> set (archive s) = {}"
proof -
  from assms(1) have "archive s0 = []" by (rule init_archive)
  moreover from assms(2) have "archive s = archive s0" by (rule run_archive)
  ultimately show ?thesis by simp
qed

theorem archive_never_populated_witness:
  "init [destination_ok] = Inr (constructor [destination_ok]) \<and>
   map_option queue
     (run [NewContext track, Dispatch 0, Flush, NewContext track, Dispatch 1]
        (constructor [destination_ok])) = Some [1] \<and>
   map_option archive
     (run [NewContext track, Dispatch 0, Flush, NewContext track, Dispatch 1]
        (constructor [destination_ok])) = Some []"
proof -
  let ?ops = "[NewContext track, Dispatch 0, Flush, NewContext track, Dispatch 1]"
  let ?s0 = "constructor [destination_ok]"
  have i: "init [destination_ok] = Inr ?s0"
    by (simp add: init_def Let_def constructor_def destination_ok_def plugin_def after_load_def)
  have q: "map_option queue (run ?ops ?s0) = Some [1]" by code_simp
  then obtain s where r: "run ?ops ?s0 = Some s" by blast
  from archive_never_populated[OF i r] have "archive s = []" by simp
  with r have "map_option archive (run ?ops ?s0) = Some []" by simp
  with i q show ?thesis by simp
qed

text \<open>
  C2, as amended: for an engine with a single \<^verbatim>\<open>before\<close> plugin whose processing always fails
  and nothing pending, after one event is dispatched, one run of the body of the loop of
  \<^verbatim>\<open>flush\<close> aborts the pipeline at that plugin and puts the event back: the pending buffer
  has length 1 again and the list of flushed events is empty. The call of \<^verbatim>\<open>flush\<close> itself
  then takes the event up again, and never returns.
\<close>

theorem pre_failure_requeues_and_retries:
  assumes "extensions s = [p]" and "type p = ''before''" and "isLoaded p"
    and "\<forall>c. fails p c" and "queue s = []"
  shows "\<exists>s'. flush_body ([], snd (dispatch ctx s)) = ([], s') \<and> queue s' = [ctx] \<and>
              length (queue s') = 1 \<and>
              trace s' = trace s @ [Called (name p) ctx (heap (snd (dispatch ctx s)) ctx)] \<and>
              flush (snd (dispatch ctx s)) = None"
proof -
  let ?s0 = "snd (dispatch ctx s)"
  let ?s1 = "?s0\<lparr>queue := []\<rparr>"
  have q0: "queue ?s0 = ctx # []" using assms(5) by simp
  have x0: "extensions ?s0 = [p]" using assms(1) by simp
  have always: "\<exists>e s''. flushOne ctx s' = (Inl e, s'')" if "extensions s' = [p]" for s'
  proof -
    from that assms(3) have "isReady s'" by (simp add: isReady_def)
    moreover from that have "p \<in> set (extensions s')" by simp
    ultimately show ?thesis using assms(2,4) by (rule flushOne_fails)
  qed
  have "fails p (heap ?s1 ctx)" using assms(4) by simp
  from ensure_fails[OF this] obtain e where
    e: "ensure ctx p ?s1 = (Inl e, ?s1\<lparr>trace := trace ?s1 @ [Called (name p) ctx (heap ?s1 ctx)]\<rparr>)"
    by blast
  let ?s2 = "?s1\<lparr>trace := trace ?s1 @ [Called (name p) ctx (heap ?s1 ctx)]\<rparr>"
  have "isReady ?s1" using x0 assms(3) by (simp add: isReady_def)
  with e x0 assms(2) have f: "flushOne ctx ?s1 = (Inl e, ?s2)" by (simp add: flushOne_def)
  let ?s' = "(stats_increment ctx ''delivery_failed''
             (ctx_log ctx ''error'' ''Failed to deliver'' ?s2))\<lparr>queue := [] @ [ctx]\<rparr>"
  have body: "flush_body ([], ?s0) = ([], ?s')" using q0 f by (rule flush_body_failure)
  have "queue ?s' = [ctx]" by simp
  moreover have "trace ?s' = trace s @ [Called (name p) ctx (heap ?s0 ctx)]" by simp
  moreover have "flush ?s0 = None"
    unfolding flush_def
  proof (rule flush_loop_never_returns[where ctx = ctx])
    show "ctx \<in> set (queue ?s0)" using q0 by simp
    show "\<forall>s'. extensions s' = extensions ?s0 \<longrightarrow> (\<exists>e s''. flushOne ctx s' = (Inl e, s''))"
      using always x0 by simp
  qed
  ultimately show ?thesis using body by simp
qed

theorem pre_failure_requeues_and_retries_witness:
  "extensions (engine [before_bad]) = [before_bad] \<and> type before_bad = ''before'' \<and>
   isLoaded before_bad \<and> (\<forall>c. fails before_bad c) \<and> queue (engine [before_bad]) = [] \<and>
   observe (Some (flush_body ([], snd (dispatch 0 (engine [before_bad]))))) =
     Some ([], [0],
       [Called ''gate'' 0
          \<lparr>payload = ''track'', sealed = False, logs = [(''debug'', ''Dispatching'')],
           stats = [Increment ''message_dispatched'']\<rparr>]) \<and>
   flush (snd (dispatch 0 (engine [before_bad]))) = None"
proof -
  have h: "extensions (engine [before_bad]) = [before_bad]" "type before_bad = ''before''"
    "isLoaded before_bad" "\<forall>c. fails before_bad c" "queue (engine [before_bad]) = []"
    by (simp_all add: engine_fields before_bad_fields)
  have c: "heap (snd (dispatch 0 (engine [before_bad]))) 0 =
      \<lparr>payload = ''track'', sealed = False, logs = [(''debug'', ''Dispatching'')],
       stats = [Increment ''message_dispatched'']\<rparr>"
    by (simp add: dispatch_def Let_def engine_fields track_def)
  from pre_failure_requeues_and_retries[OF h, of 0] obtain s' where
    "flush_body ([], snd (dispatch 0 (engine [before_bad]))) = ([], s')" "queue s' = [0]"
    "trace s' = trace (engine [before_bad]) @
       [Called (name before_bad) 0 (heap (snd (dispatch 0 (engine [before_bad]))) 0)]"
    "flush (snd (dispatch 0 (engine [before_bad]))) = None"
    by blast
  with c h show ?thesis by (simp add: observe_def engine_fields before_bad_fields)
qed

text \<open>
  C2, as stated, fails: with one \<^verbatim>\<open>before\<close> plugin that always fails and one event
  dispatched, \<^verbatim>\<open>flush\<close> does not return, so it returns no list.
\<close>

theorem pre_failure_flush_counterexample: "flush (dispatched [before_bad]) = None"
  unfolding flush_def
proof (rule flush_loop_never_returns[where ctx = 0])
  show "0 \<in> set (queue (dispatched [before_bad]))" by (simp add: dispatched_fields)
  show "\<forall>s'. extensions s' = extensions (dispatched [before_bad]) \<longrightarrow>
          (\<exists>e s''. flushOne 0 s' = (Inl e, s''))"
  proof (intro allI impI)
    fix s' :: state
    assume "extensions s' = extensions (dispatched [before_bad])"
    then have x: "extensions s' = [before_bad]" by (simp add: dispatched_fields)
    then have "isReady s'" by (simp add: isReady_def before_bad_fields)
    moreover have "before_bad \<in> set (extensions s')" by (simp add: x)
    ultimately show "\<exists>e s''. flushOne 0 s' = (Inl e, s'')"
      using before_bad_fields(1,3) by (rule flushOne_fails)
  qed
qed

text \<open>
  C5, as amended: when the pipeline surfaces an error for the event at the head of the
  pending buffer, that run of the loop body logs the failure on the event, increments its
  \<^verbatim>\<open>delivery_failed\<close> counter once, adds nothing to the flushed list, and puts the event back
  at the tail of the pending buffer. The same call of \<^verbatim>\<open>flush\<close> then goes on: the buffer is
  not empty before any of the runs of the body that deal with the events ahead, after
  those runs the failed event is at the head, and the next run of the body, still in
  this call, takes it and runs \<^verbatim>\<open>flushOne\<close> on it again. The call returns exactly when
  the buffer becomes empty after finitely many runs of the body, and then it returns
  the state after more runs of the body than that.
\<close>

theorem failed_event_requeued_at_tail:
  assumes "queue s = ctx # rest" and "flushOne ctx (s\<lparr>queue := rest\<rparr>) = (Inl err, s1)"
  shows "\<exists>s'. flush_body (fl, s) = (fl, s') \<and> queue s' = rest @ [ctx] \<and>
              logs (heap s' ctx) = logs (heap s1 ctx) @ [(''error'', ''Failed to deliver'')] \<and>
              stats (heap s' ctx) = stats (heap s1 ctx) @ [Increment ''delivery_failed''] \<and>
              flush_loop (fl, s) = flush_loop (fl, s') \<and>
              (\<forall>k\<le>Suc (length rest). queue (snd ((flush_body ^^ k) (fl, s))) \<noteq> []) \<and>
              (\<exists>r. next_try ((flush_body ^^ Suc (length rest)) (fl, s)) = Some (ctx, r)) \<and>
              flush_loop (fl, s) =
                flush_loop (flush_body ((flush_body ^^ Suc (length rest)) (fl, s))) \<and>
              ((\<exists>y. flush_loop (fl, s) = Some y) \<longleftrightarrow>
                 (\<exists>k. queue (snd ((flush_body ^^ k) (fl, s))) = [])) \<and>
              (\<forall>y. flush_loop (fl, s) = Some y \<longrightarrow>
                 (\<exists>k. Suc (length rest) < k \<and> y = (flush_body ^^ k) (fl, s)))"
proof -
  let ?s' = "(stats_increment ctx ''delivery_failed''
             (ctx_log ctx ''error'' ''Failed to deliver'' s1))\<lparr>queue := rest @ [ctx]\<rparr>"
  let ?n = "length rest"
  have body: "flush_body (fl, s) = (fl, ?s')" using assms by (rule flush_body_failure)
  have "flush_loop (fl, s) = flush_loop (flush_body (fl, s))"
    using assms(1) by (simp add: flush_loop_step)
  with body have step: "flush_loop (fl, s) = flush_loop (fl, ?s')" by simp
  have q': "queue (snd (fl, ?s')) = rest @ [ctx]" by simp
  have later: "\<exists>zs. queue (snd ((flush_body ^^ Suc k) (fl, s))) = drop k rest @ [ctx] @ zs"
    if "k \<le> ?n" for k
  proof -
    from passes_rotate[OF q' that] obtain zs where
      "queue (snd ((flush_body ^^ k) (fl, ?s'))) = drop k rest @ [ctx] @ zs" ..
    with body show ?thesis by (auto simp add: funpow_swap1)
  qed
  have nonempty: "queue (snd ((flush_body ^^ k) (fl, s))) \<noteq> []" if "k \<le> Suc ?n" for k
  proof (cases k)
    case 0
    with assms(1) show ?thesis by simp
  next
    case (Suc j)
    with that have "j \<le> ?n" by simp
    from later[OF this] Suc show ?thesis by auto
  qed
  from later[of ?n] obtain zs where
    head: "queue (snd ((flush_body ^^ Suc ?n) (fl, s))) = ctx # zs" by auto
  then have again: "\<exists>r. next_try ((flush_body ^^ Suc ?n) (fl, s)) = Some (ctx, r)"
    by (simp add: next_try_def)
  have "flush_loop (fl, s) = flush_loop ((flush_body ^^ Suc (Suc ?n)) (fl, s))"
    using nonempty by (intro flush_loop_funpow) simp
  then have same_call: "flush_loop (fl, s) =
      flush_loop (flush_body ((flush_body ^^ Suc ?n) (fl, s)))" by simp
  have returns: "\<exists>k. Suc ?n < k \<and> y = (flush_body ^^ k) (fl, s)"
    if "flush_loop (fl, s) = Some y" for y
  proof -
    from flush_loop_result[OF that] obtain k where
      k: "y = (flush_body ^^ k) (fl, s)" "queue (snd y) = []" by blast
    have "\<not> k \<le> Suc ?n" using nonempty[of k] k by auto
    then have "Suc ?n < k" by simp
    with k(1) show ?thesis by blast
  qed
  have "queue ?s' = rest @ [ctx]" by simp
  moreover have "logs (heap ?s' ctx) = logs (heap s1 ctx) @ [(''error'', ''Failed to deliver'')]"
    by simp
  moreover have "stats (heap ?s' ctx) = stats (heap s1 ctx) @ [Increment ''delivery_failed'']"
    by simp
  moreover note flush_loop_terminates_iff[of "(fl, s)"]
  ultimately show ?thesis using body step nonempty again same_call returns by blast
qed


theorem failed_event_requeued_at_tail_witness:
  "queue (dispatched_two [before_flaky]) = 0 # [1] \<and>
   flushOne 0 ((dispatched_two [before_flaky])\<lparr>queue := [1]\<rparr>) =
     (Inl (Error ''not yet''), snd (flushOne 0 ((dispatched_two [before_flaky])\<lparr>queue := [1]\<rparr>))) \<and>
   queue (snd (flush_body ([], dispatched_two [before_flaky]))) = [1, 0] \<and>
   map_option fst (next_try ((flush_body ^^ 2) ([], dispatched_two [before_flaky]))) = Some 0 \<and>
   flush_loop ([], dispatched_two [before_flaky]) =
     flush_loop (flush_body ((flush_body ^^ 2) ([], dispatched_two [before_flaky]))) \<and>
   queue (dispatched [before_flaky]) = 0 # [] \<and>
   flushOne 0 ((dispatched [before_flaky])\<lparr>queue := []\<rparr>) =
     (Inl (Error ''not yet''), snd (flushOne 0 ((dispatched [before_flaky])\<lparr>queue := []\<rparr>))) \<and>
   queue (snd ((flush_body ^^ 2) ([], dispatched [before_flaky]))) = [] \<and>
   (\<exists>k y. 1 < k \<and> flush (dispatched [before_flaky]) = Some y \<and>
          y = (flush_body ^^ k) ([], dispatched [before_flaky]))"
proof -
  let ?s = "dispatched_two [before_flaky]"
  let ?s1 = "snd (flushOne 0 (?s\<lparr>queue := [1]\<rparr>))"
  have q: "queue ?s = 0 # [1]" by (simp add: dispatched_two_fields)
  have "fst (flushOne 0 (?s\<lparr>queue := [1]\<rparr>)) = Inl (Error ''not yet'')" by code_simp
  then have f: "flushOne 0 (?s\<lparr>queue := [1]\<rparr>) = (Inl (Error ''not yet''), ?s1)"
    by (simp add: prod_eq_iff)
  from failed_event_requeued_at_tail[OF q f, of "[]"] obtain s' r where
    "flush_body ([], ?s) = ([], s')" "queue s' = [1] @ [0]"
    "next_try ((flush_body ^^ Suc (length [1::nat])) ([], ?s)) = Some (0, r)"
    "flush_loop ([], ?s) = flush_loop (flush_body ((flush_body ^^ Suc (length [1::nat])) ([], ?s)))"
    by blast
  then have two: "queue (snd (flush_body ([], ?s))) = [1, 0]"
    "map_option fst (next_try ((flush_body ^^ 2) ([], ?s))) = Some 0"
    "flush_loop ([], ?s) = flush_loop (flush_body ((flush_body ^^ 2) ([], ?s)))"
    by (simp_all add: numeral_2_eq_2)
  let ?t = "dispatched [before_flaky]"
  let ?t1 = "snd (flushOne 0 (?t\<lparr>queue := []\<rparr>))"
  have qt: "queue ?t = 0 # []" by (simp add: dispatched_fields)
  have "fst (flushOne 0 (?t\<lparr>queue := []\<rparr>)) = Inl (Error ''not yet'')" by code_simp
  then have ft: "flushOne 0 (?t\<lparr>queue := []\<rparr>) = (Inl (Error ''not yet''), ?t1)"
    by (simp add: prod_eq_iff)
  have emptied: "queue (snd ((flush_body ^^ 2) ([], ?t))) = []" by code_simp
  from failed_event_requeued_at_tail[OF qt ft, of "[]"] have
    iff: "(\<exists>y. flush_loop ([], ?t) = Some y) \<longleftrightarrow>
       (\<exists>k. queue (snd ((flush_body ^^ k) ([], ?t))) = [])"
    and later: "\<forall>y. flush_loop ([], ?t) = Some y \<longrightarrow>
       (\<exists>k. Suc (length ([]::nat list)) < k \<and> y = (flush_body ^^ k) ([], ?t))"
    by blast+
  from iff emptied obtain y where y: "flush_loop ([], ?t) = Some y" by blast
  with later obtain k where "Suc 0 < k" "y = (flush_body ^^ k) ([], ?t)" by auto
  with y have one: "\<exists>k y. 1 < k \<and> flush ?t = Some y \<and> y = (flush_body ^^ k) ([], ?t)"
    by (auto simp add: flush_def)
  from q f two qt ft emptied one show ?thesis by blast
qed

text \<open>
  C5, as stated, fails: with a \<^verbatim>\<open>before\<close> plugin that fails on an event until the event has
  a failed delivery on its stats channel, a single call of \<^verbatim>\<open>flush\<close> processes the event
  twice, and returns it as flushed.
\<close>

theorem failed_event_same_flush_counterexample:
  "observe (flush (dispatched [before_flaky])) =
     Some ([0], [],
       [Called ''flaky'' 0
          \<lparr>payload = ''track'', sealed = False, logs = [(''debug'', ''Dispatching'')],
           stats = [Increment ''message_dispatched'']\<rparr>,
        Called ''flaky'' 0
          \<lparr>payload = ''track'', sealed = False,
           logs = [(''debug'', ''Dispatching''), (''error'', ''Failed to deliver'')],
           stats = [Increment ''message_dispatched'', Increment ''delivery_failed'']\<rparr>,
        Sealed 0])"
  by code_simp

text \<open>
  C4: for an engine with one \<^verbatim>\<open>enrichment\<close> plugin whose processing always fails and one
  \<^verbatim>\<open>destination\<close> plugin whose processing always succeeds, and nothing pending, after one
  event is dispatched \<^verbatim>\<open>flush\<close> returns a list of length 1, holding that event, and the
  pending buffer is empty. The enrichment plugin was called and its failure absorbed:
  the event was then sealed and handed to the destination with the content it had
  before the enrichment plugin ran.
\<close>

theorem enrichment_failure_absorbed:
  assumes config: "extensions s = [en, d] \<or> extensions s = [d, en]"
    and types: "type en = ''enrichment''" "type d = ''destination''"
    and loaded: "isLoaded en" "isLoaded d"
    and en_fails: "\<forall>c. fails en c" and d_succeeds: "\<forall>c. \<not> fails d c"
    and nothing_pending: "queue s = []"
  shows "\<exists>s'. flush (snd (dispatch ctx s)) = Some ([ctx], s') \<and> queue s' = [] \<and>
              trace s' = trace s @
                [Called (name en) ctx (heap (snd (dispatch ctx s)) ctx),
                 Sealed ctx,
                 Called (name d) ctx ((heap (snd (dispatch ctx s)) ctx)\<lparr>sealed := True\<rparr>)]"
proof -
  let ?s0 = "snd (dispatch ctx s)"
  let ?s1 = "?s0\<lparr>queue := []\<rparr>"
  let ?c0 = "heap ?s0 ctx"
  have q0: "queue ?s0 = [ctx]" using nothing_pending by simp
  have ready: "isReady ?s1" using config loaded by (auto simp add: isReady_def)
  have b: "filter (\<lambda>p. type p = ''before'') (extensions s) = []"
    and e: "filter (\<lambda>p. type p = ''enrichment'') (extensions s) = [en]"
    and ds: "filter (\<lambda>p. type p = ''destination'') (extensions s) = [d]"
    using config types by auto
  let ?s2 = "?s1\<lparr>trace := trace ?s1 @ [Called (name en) ctx (heap ?s1 ctx)]\<rparr>"
  have "fails en (heap ?s1 ctx)" using en_fails by simp
  from attempt_fails[OF this] obtain err where a1: "attempt ctx en ?s1 = (Inl err, ?s2)" by blast
  have rb: "run_before (filter (\<lambda>p. type p = ''before'') (extensions ?s1)) ctx ?s1 = (Inr ctx, ?s1)"
    by (simp add: b)
  have re: "run_enrichment (filter (\<lambda>p. type p = ''enrichment'') (extensions ?s1)) ctx ?s1 = (ctx, ?s2)"
    using a1 by (simp add: e)
  obtain res s4 where a2: "attempt ctx d (seal ctx ?s2) = (res, s4)"
    by (cases "attempt ctx d (seal ctx ?s2)")
  have da: "deliveryAttempts (filter (\<lambda>p. type p = ''destination'') (extensions ?s1)) ctx (seal ctx ?s2)
              = ([res], s4)"
    using a2 by (simp add: ds)
  have t4: "trace s4 = trace (seal ctx ?s2) @ [Called (name d) ctx (heap (seal ctx ?s2) ctx)]"
    using a2 by (rule attempt_trace)
  let ?s5 = "stats_increment ctx ''message_delivered'' s4"
  have f: "flushOne ctx ?s1 = (Inr (Some ctx), ?s5)"
    using ready rb re da by (rule flushOne_ready)
  let ?s' = "ctx_log ctx ''debug'' ''Delivered'' (stats_gauge ctx ''delivered'' ?s5)"
  have fl: "flush ?s0 = Some ([ctx], ?s')" using q0 f by (rule flush_single_success)
  have "frame ?s1 ?s5" using f by (rule flushOne_frame)
  then have "queue ?s' = []" by (simp add: frame_def)
  moreover have "trace ?s' = trace s @ [Called (name en) ctx ?c0, Sealed ctx,
       Called (name d) ctx (?c0\<lparr>sealed := True\<rparr>)]"
    using t4 by simp
  ultimately show ?thesis using fl by blast
qed

theorem enrichment_failure_absorbed_witness:
  "(extensions (engine [enrichment_bad, destination_ok]) = [enrichment_bad, destination_ok] \<or>
    extensions (engine [enrichment_bad, destination_ok]) = [destination_ok, enrichment_bad]) \<and>
   type enrichment_bad = ''enrichment'' \<and> type destination_ok = ''destination'' \<and>
   isLoaded enrichment_bad \<and> isLoaded destination_ok \<and>
   (\<forall>c. fails enrichment_bad c) \<and> (\<forall>c. \<not> fails destination_ok c) \<and>
   queue (engine [enrichment_bad, destination_ok]) = [] \<and>
   observe (flush (snd (dispatch 0 (engine [enrichment_bad, destination_ok])))) =
     Some ([0], [],
       [Called ''enrich'' 0
          \<lparr>payload = ''track'', sealed = False, logs = [(''debug'', ''Dispatching'')],
           stats = [Increment ''message_dispatched'']\<rparr>,
        Sealed 0,
        Called ''good'' 0
          \<lparr>payload = ''track'', sealed = True, logs = [(''debug'', ''Dispatching'')],
           stats = [Increment ''message_dispatched'']\<rparr>])"
proof -
  let ?s = "engine [enrichment_bad, destination_ok]"
  have h1: "extensions ?s = [enrichment_bad, destination_ok] \<or>
            extensions ?s = [destination_ok, enrichment_bad]"
    by (simp add: engine_fields)
  have h2: "type enrichment_bad = ''enrichment''" "type destination_ok = ''destination''"
    by (simp_all add: enrichment_bad_def destination_ok_def)
  have h3: "isLoaded enrichment_bad" "isLoaded destination_ok"
    by (simp_all add: enrichment_bad_def destination_ok_def)
  have h4: "\<forall>c. fails enrichment_bad c" by (simp add: fails_def enrichment_bad_def)
  have h5: "\<forall>c. \<not> fails destination_ok c" by (simp add: fails_def destination_ok_def)
  have h6: "queue ?s = []" by (simp add: engine_fields)
  have c: "heap (snd (dispatch 0 ?s)) 0 =
      \<lparr>payload = ''track'', sealed = False, logs = [(''debug'', ''Dispatching'')],
       stats = [Increment ''message_dispatched'']\<rparr>"
    by (simp add: dispatch_def Let_def engine_fields track_def)
  from enrichment_failure_absorbed[OF h1 h2 h3 h4 h5 h6, of 0] obtain s' where
    "flush (snd (dispatch 0 ?s)) = Some ([0], s')" "queue s' = []"
    "trace s' = trace ?s @
                [Called (name enrichment_bad) 0 (heap (snd (dispatch 0 ?s)) 0),
                 Sealed 0,
                 Called (name destination_ok) 0 ((heap (snd (dispatch 0 ?s)) 0)\<lparr>sealed := True\<rparr>)]"
    by blast
  then have "observe (flush (snd (dispatch 0 ?s))) =
     Some ([0], [],
       [Called ''enrich'' 0
          \<lparr>payload = ''track'', sealed = False, logs = [(''debug'', ''Dispatching'')],
           stats = [Increment ''message_dispatched'']\<rparr>,
        Sealed 0,
        Called ''good'' 0
          \<lparr>payload = ''track'', sealed = True, logs = [(''debug'', ''Dispatching'')],
           stats = [Increment ''message_dispatched'']\<rparr>])"
    by (simp add: observe_def c engine_fields fixture_names)
  with h1 h2 h3 h4 h5 h6 show ?thesis by blast
qed



end
